theory Spec2Isabelle
  imports Main "HOL-Library.Sublist"
begin

section \<open>Values, objects and the store\<close>

text \<open>
  The Compiler of \<open>src/unnamed/part_001\<close> mutates objects that are shared by reference:
  the record store (\<open>this.records\<close>), the \<open>taps\<close> array of every hook and the two
  timestamp maps. They live in an explicit store: an address is a position in a list of
  cells, and an allocation appends a cell, so that an address once handed out keeps its
  meaning.
\<close>

type_synonym addr = nat

datatype jsval = JUndefined | JNull | JBool bool | JNum int | JStr string | JRef addr

datatype cell =
    HObj "(string \<times> jsval) list"
  | HArr "jsval list"
  | HTaps "string list"
  | HMap "(string \<times> nat) list"

type_synonym heap = "cell list"

definition hget :: "heap \<Rightarrow> addr \<Rightarrow> cell option" where
  "hget h a = (if a < length h then Some (h ! a) else None)"

definition alloc :: "heap \<Rightarrow> cell \<Rightarrow> addr \<times> heap" where
  "alloc h c = (length h, h @ [c])"

definition hset :: "heap \<Rightarrow> addr \<Rightarrow> cell \<Rightarrow> heap" where
  "hset h a c = h[a := c]"

text \<open>JavaScript truthiness, as \<open>!x\<close> and \<open>if (x)\<close> read a value.\<close>

fun truthy :: "jsval \<Rightarrow> bool" where
  "truthy JUndefined = False"
| "truthy JNull = False"
| "truthy (JBool b) = b"
| "truthy (JNum n) = (n \<noteq> 0)"
| "truthy (JStr s) = (s \<noteq> [])"
| "truthy (JRef a) = True"

fun obj_set :: "string \<Rightarrow> jsval \<Rightarrow> (string \<times> jsval) list \<Rightarrow> (string \<times> jsval) list" where
  "obj_set k v [] = [(k, v)]"
| "obj_set k v ((k', v') # kvs) =
     (if k = k' then (k, v) # kvs else (k', v') # obj_set k v kvs)"

text \<open>
  The names every plain object inherits from \<open>Object.prototype\<close>: a lookup of one of
  them on an object that has no own property of that name does not yield \<open>undefined\<close>.
\<close>

definition Object_prototype_names :: "string list" where
  "Object_prototype_names =
     [''constructor'', ''__defineGetter__'', ''__defineSetter__'', ''hasOwnProperty'',
      ''__lookupGetter__'', ''__lookupSetter__'', ''isPrototypeOf'',
      ''propertyIsEnumerable'', ''toString'', ''valueOf'', ''__proto__'',
      ''toLocaleString'']"

datatype json =
    JsNull | JsBool bool | JsNum int | JsStr string
  | JsArr "json list" | JsObj "(string \<times> json) list"

text \<open>A parsed JSON text becomes objects and arrays of the store, children first.\<close>

fun alloc_json :: "json \<Rightarrow> heap \<Rightarrow> jsval \<times> heap"
  and alloc_jsons :: "json list \<Rightarrow> heap \<Rightarrow> jsval list \<times> heap"
  and alloc_fields :: "(string \<times> json) list \<Rightarrow> heap \<Rightarrow> (string \<times> jsval) list \<times> heap"
where
  "alloc_json JsNull h = (JNull, h)"
| "alloc_json (JsBool b) h = (JBool b, h)"
| "alloc_json (JsNum n) h = (JNum n, h)"
| "alloc_json (JsStr s) h = (JStr s, h)"
| "alloc_json (JsArr js) h =
     (case alloc_jsons js h of (vs, h1) \<Rightarrow>
        (case alloc h1 (HArr vs) of (a, h2) \<Rightarrow> (JRef a, h2)))"
| "alloc_json (JsObj fs) h =
     (case alloc_fields fs h of (kvs, h1) \<Rightarrow>
        (case alloc h1 (HObj kvs) of (a, h2) \<Rightarrow> (JRef a, h2)))"
| "alloc_jsons [] h = ([], h)"
| "alloc_jsons (j # js) h =
     (case alloc_json j h of (v, h1) \<Rightarrow>
        (case alloc_jsons js h1 of (vs, h2) \<Rightarrow> (v # vs, h2)))"
| "alloc_fields [] h = ([], h)"
| "alloc_fields (kj # fs) h =
     (case alloc_json (snd kj) h of (v, h1) \<Rightarrow>
        (case alloc_fields fs h1 of (kvs, h2) \<Rightarrow> ((fst kj, v) # kvs, h2)))"

section \<open>The data model\<close>

text \<open>
  \<open>ConcurrentCompilationError\<close> is the guard's error; every other error value carries
  its message. A failure of a stage either reaches the callback (\<open>CbError\<close>) or is an
  exception that leaves \<open>run\<close> without any callback being called (\<open>Uncaught\<close>: a method
  call on a file system that is \<open>null\<close>).
\<close>

datatype error = ConcurrentCompilationError | Error string

datatype failure = CbError error | Uncaught string

datatype content = Text string | Buffer "nat list"

text \<open>
  An asset is a Source object: \<open>source\<close> is what its method \<open>source()\<close> returns,
  \<open>existsAt\<close> and \<open>emitted\<close> are the two properties \<open>emitAssets\<close> maintains
  (\<open>None\<close> while they are \<open>undefined\<close>).
\<close>

record asset =
  source :: content
  existsAt :: "string option"
  emitted :: "bool option"

text \<open>A registration \<open>(hook, tap)\<close> is one call \<open>compiler.hooks.hook.tap(tap, fn)\<close>.\<close>

type_synonym plugin = "(string \<times> string) list"

text \<open>
  Modelled from the spec: the class Compilation (\<open>./Compilation\<close>) is not among the
  sources. A Compilation Session holds the produced asset mapping (in insertion order,
  as \<open>asyncLib.forEach\<close> walks it) and the flag \<open>needAdditionalPass\<close>; the other fields
  are the ones \<open>newCompilation\<close> assigns. \<open>hooks_childCompiler\<close> are the taps of its hook
  \<open>childCompiler\<close>, each one a function on the child compiler.
\<close>

record compilation =
  assets :: "(string \<times> asset) list"
  needAdditionalPass :: bool
  c_fileTimestamps :: addr
  c_contextTimestamps :: addr
  c_name :: "string option"
  c_records :: jsval
  compilationDependencies :: "string list"
  hooks_childCompiler :: "plugin list"

text \<open>
  The fields of the constructor of class Compiler. \<open>hooks\<close> maps a hook's name to the
  address of its \<open>taps\<close> array; a file system is \<open>None\<close> while it is \<open>null\<close>;
  \<open>options_output\<close> is \<open>options.output\<close>: \<open>None\<close> while it is \<open>undefined\<close>, as it is
  after the constructor's \<open>this.options = {}\<close>, and otherwise its properties, read front
  to back as the prototype chain of \<open>Object.create\<close> is.
\<close>

record compiler =
  hooks :: "(string \<times> addr) list"
  name :: "string option"
  parentCompilation :: "compilation option"
  outputPath :: string
  outputFileSystem :: "nat option"
  inputFileSystem :: "nat option"
  recordsInputPath :: "string option"
  recordsOutputPath :: "string option"
  records :: jsval
  fileTimestamps :: addr
  contextTimestamps :: addr
  resolverFactory :: addr
  options_output :: "(string \<times> jsval) list option"
  compiler_context :: string
  running :: bool

text \<open>
  Modelled from the spec: the class Stats (\<open>./Stats\<close>) is not among the sources. It is
  the summary handed to the \<open>done\<close> hook: the session and the two timestamps, which
  \<open>new Stats(compilation)\<close> leaves undefined and \<open>run\<close> assigns.
\<close>

record stats =
  compilation :: compilation
  startTime :: "nat option"
  endTime :: "nat option"

definition new_Stats :: "compilation \<Rightarrow> stats" where
  "new_Stats c = \<lparr>compilation = c, startTime = None, endTime = None\<rparr>"

datatype harg =
    ArgNone | ArgCompiler compiler | ArgCompilation compilation | ArgStats stats
  | ArgParams | ArgFactory string

text \<open>What the orchestrator does that can be observed from outside, in order.\<close>

datatype event =
    HookCall string harg
  | FsMkdirp string
  | FsWriteFile string content
  | FsStat string
  | FsReadFile string

text \<open>
  The state a build runs in: the compiler (the object \<open>this\<close>), the store, the state
  \<open>'w\<close> of everything outside the compiler (plugin state, disk, time), and the trace of
  what the orchestrator did.
\<close>

record 'w state =
  self :: compiler
  heap :: heap
  world :: 'w
  trace :: "event list"

text \<open>
  Everything the Compiler calls but does not define is a parameter: the functions of the
  taps (by hook name and tap name), the clock, the two file system adapters, Node's
  \<open>path.dirname\<close> and \<open>Buffer\<close> conversions, \<open>parseJson\<close> (\<open>Inl\<close> is the message of the
  SyntaxError it throws), \<open>JSON.stringify\<close>, \<open>makePathsRelative\<close>, and the methods of
  the session (\<open>getPath\<close>, \<open>finish\<close>, \<open>seal\<close>, its hook \<open>needAdditionalPass\<close>).

  A tap holds the compiler by reference (\<open>plugin.apply(compiler)\<close>, and \<open>this\<close> is the
  argument of \<open>beforeRun\<close> and \<open>run\<close>), and through it every object of the store: a tap
  is a function on the whole state, and may assign any field of the compiler, write to
  any object of the store and act on the world. Only the trace is not its to write: it
  is the observer's log of the orchestrator, and a hook call leaves it as the trace
  before the call followed by that call. A tap may also change the session it is handed:
  of the argument a tap returns, a session is read back and anything else is dropped. A
  sync tap returns a value and does not throw; an async tap passes an optional error to
  its callback. The clock, the file systems and the methods of the session act on the
  world.
\<close>

record 'w env =
  sync_tap :: "string \<Rightarrow> string \<Rightarrow> harg \<Rightarrow> 'w state \<Rightarrow> jsval \<times> harg \<times> 'w state"
  async_tap :: "string \<Rightarrow> string \<Rightarrow> harg \<Rightarrow> 'w state \<Rightarrow> error option \<times> harg \<times> 'w state"
  Date_now :: "'w \<Rightarrow> nat \<times> 'w"
  fs_join :: "string \<Rightarrow> string \<Rightarrow> string"
  fs_mkdirp :: "string \<Rightarrow> 'w \<Rightarrow> error option \<times> 'w"
  fs_writeFile :: "string \<Rightarrow> content \<Rightarrow> 'w \<Rightarrow> error option \<times> 'w"
  fs_stat :: "string \<Rightarrow> 'w \<Rightarrow> error option \<times> 'w"
  fs_readFile :: "string \<Rightarrow> 'w \<Rightarrow> (error + nat list) \<times> 'w"
  path_dirname :: "string \<Rightarrow> string"
  Buffer_from :: "string \<Rightarrow> nat list"
  Buffer_toString :: "nat list \<Rightarrow> string"
  parseJson :: "string \<Rightarrow> string + json"
  JSON_stringify :: "heap \<Rightarrow> jsval \<Rightarrow> string"
  makePathsRelative :: "string \<Rightarrow> string \<Rightarrow> string"
  getPath :: "compilation \<Rightarrow> string \<Rightarrow> string"
  finish :: "compilation \<Rightarrow> 'w \<Rightarrow> compilation \<times> 'w"
  seal :: "compilation \<Rightarrow> 'w \<Rightarrow> error option \<times> compilation \<times> 'w"
  needAdditionalPass_call :: "compilation \<Rightarrow> 'w \<Rightarrow> jsval \<times> 'w"

section \<open>Hook dispatch\<close>

text \<open>
  Modelled from the spec: the hook classes come from the package \<open>tapable\<close>, which is
  not among the sources. Section 4.1 of the spec gives the four call disciplines: Sync
  calls every tap in order; Sync-Bail stops at the first tap whose result is defined and
  returns it; Async-Series stops at the first failure; Async-Parallel starts every tap
  and surfaces the first failure without cancelling the others. The four functions
  thread whatever the taps act on, here the state of the build, from one tap to the
  next.
\<close>

primrec call_sync ::
  "(harg \<Rightarrow> 'w \<Rightarrow> jsval \<times> harg \<times> 'w) list \<Rightarrow> harg \<Rightarrow> 'w \<Rightarrow> harg \<times> 'w" where
  "call_sync [] a w = (a, w)"
| "call_sync (t # ts) a w = (case t a w of (v, a1, w1) \<Rightarrow> call_sync ts a1 w1)"

primrec call_bail ::
  "(harg \<Rightarrow> 'w \<Rightarrow> jsval \<times> harg \<times> 'w) list \<Rightarrow> harg \<Rightarrow> 'w \<Rightarrow> jsval \<times> harg \<times> 'w" where
  "call_bail [] a w = (JUndefined, a, w)"
| "call_bail (t # ts) a w =
     (case t a w of (v, a1, w1) \<Rightarrow>
        if v \<noteq> JUndefined then (v, a1, w1) else call_bail ts a1 w1)"

primrec call_series ::
  "(harg \<Rightarrow> 'w \<Rightarrow> error option \<times> harg \<times> 'w) list \<Rightarrow> harg \<Rightarrow> 'w
     \<Rightarrow> error option \<times> harg \<times> 'w" where
  "call_series [] a w = (None, a, w)"
| "call_series (t # ts) a w =
     (case t a w of
        (Some e, a1, w1) \<Rightarrow> (Some e, a1, w1)
      | (None, a1, w1) \<Rightarrow> call_series ts a1 w1)"

primrec call_parallel ::
  "(harg \<Rightarrow> 'w \<Rightarrow> error option \<times> harg \<times> 'w) list \<Rightarrow> harg \<Rightarrow> 'w
     \<Rightarrow> error option \<times> harg \<times> 'w" where
  "call_parallel [] a w = (None, a, w)"
| "call_parallel (t # ts) a w =
     (case t a w of (r, a1, w1) \<Rightarrow>
        (case call_parallel ts a1 w1 of (r', a2, w2) \<Rightarrow>
           (if r \<noteq> None then r else r', a2, w2)))"

text \<open>
  The taps of a hook of a compiler, read through the store. A call of a hook runs the
  taps the hook has when the call starts.
\<close>

definition taps_of :: "compiler \<Rightarrow> heap \<Rightarrow> string \<Rightarrow> string list" where
  "taps_of c h n =
     (case map_of (hooks c) n of
        None \<Rightarrow> []
      | Some a \<Rightarrow> (case hget h a of Some (HTaps ts) \<Rightarrow> ts | _ \<Rightarrow> []))"

definition the_compilation :: "compilation \<Rightarrow> harg \<Rightarrow> compilation" where
  "the_compilation c a = (case a of ArgCompilation c' \<Rightarrow> c' | _ \<Rightarrow> c)"

definition hook_call :: "'w env \<Rightarrow> string \<Rightarrow> harg \<Rightarrow> 'w state \<Rightarrow> harg \<times> 'w state" where
  "hook_call env n a s =
     (case call_sync (map (sync_tap env n) (taps_of (self s) (heap s) n)) a s of
        (a1, s1) \<Rightarrow> (a1, s1\<lparr>trace := trace s @ [HookCall n a]\<rparr>))"

definition hook_call_bail ::
  "'w env \<Rightarrow> string \<Rightarrow> harg \<Rightarrow> 'w state \<Rightarrow> jsval \<times> harg \<times> 'w state" where
  "hook_call_bail env n a s =
     (case call_bail (map (sync_tap env n) (taps_of (self s) (heap s) n)) a s of
        (v, a1, s1) \<Rightarrow> (v, a1, s1\<lparr>trace := trace s @ [HookCall n a]\<rparr>))"

definition hook_callAsync ::
  "'w env \<Rightarrow> string \<Rightarrow> harg \<Rightarrow> 'w state \<Rightarrow> error option \<times> harg \<times> 'w state" where
  "hook_callAsync env n a s =
     (case call_series (map (async_tap env n) (taps_of (self s) (heap s) n)) a s of
        (r, a1, s1) \<Rightarrow> (r, a1, s1\<lparr>trace := trace s @ [HookCall n a]\<rparr>))"

definition hook_callAsync_parallel ::
  "'w env \<Rightarrow> string \<Rightarrow> harg \<Rightarrow> 'w state \<Rightarrow> error option \<times> harg \<times> 'w state" where
  "hook_callAsync_parallel env n a s =
     (case call_parallel (map (async_tap env n) (taps_of (self s) (heap s) n)) a s of
        (r, a1, s1) \<Rightarrow> (r, a1, s1\<lparr>trace := trace s @ [HookCall n a]\<rparr>))"

section \<open>Records: reading and writing\<close>

text \<open>
  \<open>readRecords\<close>: \<open>!this.recordsInputPath\<close> holds for \<open>null\<close> and for the empty string.
  The three callbacks of the source are the three nested cases.
\<close>

definition readRecords :: "'w env \<Rightarrow> 'w state \<Rightarrow> failure option \<times> 'w state" where
  "readRecords env s =
     (if recordsInputPath (self s) = None \<or> recordsInputPath (self s) = Some [] then
        (case alloc (heap s) (HObj []) of (a, h1) \<Rightarrow>
           (None, s\<lparr>self := (self s)\<lparr>records := JRef a\<rparr>, heap := h1\<rparr>))
      else if inputFileSystem (self s) = None then (Some (Uncaught ''TypeError''), s)
      else
        (let p = the (recordsInputPath (self s)) in
         case fs_stat env p (world s) of
           (Some err, w1) \<Rightarrow> (None, s\<lparr>world := w1, trace := trace s @ [FsStat p]\<rparr>)
         | (None, w1) \<Rightarrow>
             (case fs_readFile env p w1 of
                (Inl err, w2) \<Rightarrow>
                  (Some (CbError err),
                   s\<lparr>world := w2, trace := trace s @ [FsStat p, FsReadFile p]\<rparr>)
              | (Inr content, w2) \<Rightarrow>
                  (case parseJson env (Buffer_toString env content) of
                     Inl msg \<Rightarrow>
                       (Some (CbError (Error (''Cannot parse records: '' @ msg))),
                        s\<lparr>world := w2, trace := trace s @ [FsStat p, FsReadFile p]\<rparr>)
                   | Inr j \<Rightarrow>
                       (case alloc_json j (heap s) of (v, h1) \<Rightarrow>
                          (None,
                           s\<lparr>self := (self s)\<lparr>records := v\<rparr>, heap := h1, world := w2,
                             trace := trace s @ [FsStat p, FsReadFile p]\<rparr>))))))"

text \<open>\<open>String.prototype.lastIndexOf\<close> for a single character: \<open>-1\<close> when it is absent.\<close>

definition lastIndexOf :: "string \<Rightarrow> char \<Rightarrow> int" where
  "lastIndexOf s c =
     (if c \<in> set s then int (length s) - 1 - int (length (takeWhile (\<lambda>x. x \<noteq> c) (rev s)))
      else - 1)"

definition recordsOutputPathDirectory :: "string \<Rightarrow> string option" where
  "recordsOutputPathDirectory p =
     (let idx1 = lastIndexOf p (CHR ''/''); idx2 = lastIndexOf p (CHR 0x5C) in
      if idx1 > idx2 then Some (take (nat idx1) p)
      else if idx1 < idx2 then Some (take (nat idx2) p)
      else None)"

definition writeFile_records :: "'w env \<Rightarrow> string \<Rightarrow> 'w state \<Rightarrow> failure option \<times> 'w state" where
  "writeFile_records env p s =
     (if outputFileSystem (self s) = None then (Some (Uncaught ''TypeError''), s)
      else
        (let text = Text (JSON_stringify env (heap s) (records (self s))) in
         case fs_writeFile env p text (world s) of
           (r, w1) \<Rightarrow>
             (map_option CbError r, s\<lparr>world := w1, trace := trace s @ [FsWriteFile p text]\<rparr>)))"

definition emitRecords :: "'w env \<Rightarrow> 'w state \<Rightarrow> failure option \<times> 'w state" where
  "emitRecords env s =
     (if recordsOutputPath (self s) = None \<or> recordsOutputPath (self s) = Some [] then (None, s)
      else
        (let p = the (recordsOutputPath (self s)) in
         case recordsOutputPathDirectory p of
           None \<Rightarrow> writeFile_records env p s
         | Some d \<Rightarrow>
             if d = [] then writeFile_records env p s
             else if outputFileSystem (self s) = None then (Some (Uncaught ''TypeError''), s)
             else
               (case fs_mkdirp env d (world s) of
                  (Some err, w1) \<Rightarrow>
                    (Some (CbError err), s\<lparr>world := w1, trace := trace s @ [FsMkdirp d]\<rparr>)
                | (None, w1) \<Rightarrow>
                    writeFile_records env p (s\<lparr>world := w1, trace := trace s @ [FsMkdirp d]\<rparr>))))"

section \<open>Asset emission\<close>

text \<open>
  The iterator of \<open>asyncLib.forEach\<close> in \<open>emitAssets\<close>, for one asset \<open>(file, source)\<close>:
  \<open>targetFile_of\<close> cuts the name at its first \<open>?\<close>, \<open>has_separator\<close> is the match of the
  regular expression for a slash or a backslash, \<open>writeOut\<close> is the inner function of that name after its error check.
  The result is the error passed to the iterator's callback, the asset as it is left,
  and the file system calls made.
\<close>

definition targetFile_of :: "string \<Rightarrow> string" where
  "targetFile_of file = takeWhile (\<lambda>c. c \<noteq> CHR ''?'') file"

definition has_separator :: "string \<Rightarrow> bool" where
  "has_separator t = (CHR ''/'' \<in> set t \<or> CHR 0x5C \<in> set t)"

definition writeOut ::
  "'w env \<Rightarrow> string \<Rightarrow> string \<Rightarrow> asset \<Rightarrow> 'w \<Rightarrow> error option \<times> asset \<times> 'w \<times> event list" where
  "writeOut env outPath targetFile src w =
     (let targetPath = fs_join env outPath targetFile in
      if existsAt src = Some targetPath then (None, src\<lparr>emitted := Some False\<rparr>, w, [])
      else
        (let content = (case source src of
                          Buffer b \<Rightarrow> Buffer b
                        | Text t \<Rightarrow> Buffer (Buffer_from env t));
             src1 = src\<lparr>existsAt := Some targetPath, emitted := Some True\<rparr>
         in case fs_writeFile env targetPath content w of
              (r, w1) \<Rightarrow> (r, src1, w1, [FsWriteFile targetPath content])))"

definition emit_file ::
  "'w env \<Rightarrow> string \<Rightarrow> string \<times> asset \<Rightarrow> 'w \<Rightarrow> error option \<times> asset \<times> 'w \<times> event list" where
  "emit_file env outPath fa w =
     (let targetFile = targetFile_of (fst fa) in
      if has_separator targetFile then
        (let d = fs_join env outPath (path_dirname env targetFile) in
         case fs_mkdirp env d w of
           (Some err, w1) \<Rightarrow> (Some err, snd fa, w1, [FsMkdirp d])
         | (None, w1) \<Rightarrow>
             (case writeOut env outPath targetFile (snd fa) w1 of
                (r, a, w2, evs) \<Rightarrow> (r, a, w2, FsMkdirp d # evs)))
      else writeOut env outPath targetFile (snd fa) w)"

text \<open>
  Modelled from the spec: \<open>asyncLib.forEach\<close> (package \<open>neo-async\<close>) is not among the
  sources. Section 4.5: the writes of the assets are started for every asset and are
  not ordered with respect to one another; a failing one surfaces as the failure of the
  stage. The model visits the assets in order and reports the first failure.
\<close>

primrec emit_files ::
  "'w env \<Rightarrow> string \<Rightarrow> (string \<times> asset) list \<Rightarrow> 'w
     \<Rightarrow> error option \<times> (string \<times> asset) list \<times> 'w \<times> event list" where
  "emit_files env outPath [] w = (None, [], w, [])"
| "emit_files env outPath (fa # fas) w =
     (case emit_file env outPath fa w of
        (r, a, w1, evs) \<Rightarrow>
          (case emit_files env outPath fas w1 of
             (r', as, w2, evs') \<Rightarrow>
               (if r \<noteq> None then r else r', (fst fa, a) # as, w2, evs @ evs')))"

definition emitAssets ::
  "'w env \<Rightarrow> compilation \<Rightarrow> 'w state \<Rightarrow> failure option \<times> compilation \<times> 'w state" where
  "emitAssets env c s =
     (case hook_callAsync env ''emit'' (ArgCompilation c) s of
        (Some err, a, s1) \<Rightarrow> (Some (CbError err), the_compilation c a, s1)
      | (None, a, s1) \<Rightarrow>
          (let c1 = the_compilation c a; outPath = getPath env c1 (outputPath (self s1)) in
           if outputFileSystem (self s1) = None then (Some (Uncaught ''TypeError''), c1, s1)
           else
             (case fs_mkdirp env outPath (world s1) of
                (Some err, w2) \<Rightarrow>
                  (Some (CbError err), c1,
                   s1\<lparr>world := w2, trace := trace s1 @ [FsMkdirp outPath]\<rparr>)
              | (None, w2) \<Rightarrow>
                  (case emit_files env outPath (assets c1) w2 of
                     (r, as, w3, evs) \<Rightarrow>
                       (let c2 = c1\<lparr>assets := as\<rparr>;
                            s3 = s1\<lparr>world := w3, trace := trace s1 @ FsMkdirp outPath # evs\<rparr>
                        in case r of
                             Some err \<Rightarrow> (Some (CbError err), c2, s3)
                           | None \<Rightarrow>
                               (case hook_callAsync env ''afterEmit'' (ArgCompilation c2) s3 of
                                  (r', a', s4) \<Rightarrow>
                                    (map_option CbError r', the_compilation c2 a', s4)))))))"

section \<open>The compile stage\<close>

definition newCompilationParams :: "'w env \<Rightarrow> 'w state \<Rightarrow> 'w state" where
  "newCompilationParams env s =
     (case hook_call env ''normalModuleFactory'' (ArgFactory ''NormalModuleFactory'') s of
        (a1, s1) \<Rightarrow>
          (case hook_call env ''contextModuleFactory'' (ArgFactory ''ContextModuleFactory'') s1 of
             (a2, s2) \<Rightarrow> s2))"

text \<open>
  \<open>createCompilation\<close> followed by the assignments of \<open>newCompilation\<close>: a session with
  no asset, the flag cleared and no tap of its own, then the two sync hooks.
\<close>

definition createCompilation :: "compiler \<Rightarrow> compilation" where
  "createCompilation c =
     \<lparr>assets = [], needAdditionalPass = False,
      c_fileTimestamps = fileTimestamps c, c_contextTimestamps = contextTimestamps c,
      c_name = name c, c_records = records c, compilationDependencies = [],
      hooks_childCompiler = []\<rparr>"

definition newCompilation :: "'w env \<Rightarrow> 'w state \<Rightarrow> compilation \<times> 'w state" where
  "newCompilation env s =
     (let c = createCompilation (self s) in
      case hook_call env ''thisCompilation'' (ArgCompilation c) s of
        (a1, s1) \<Rightarrow>
          (let c1 = the_compilation c a1 in
           case hook_call env ''compilation'' (ArgCompilation c1) s1 of
             (a2, s2) \<Rightarrow> (the_compilation c1 a2, s2)))"

definition compile :: "'w env \<Rightarrow> 'w state \<Rightarrow> (failure + compilation) \<times> 'w state" where
  "compile env s =
     (case hook_callAsync env ''beforeCompile'' ArgParams (newCompilationParams env s) of
        (Some err, a, s1) \<Rightarrow> (Inl (CbError err), s1)
      | (None, a, s1) \<Rightarrow>
          (case hook_call env ''compile'' ArgParams s1 of
             (a2, s2) \<Rightarrow>
               (case newCompilation env s2 of
                  (c, s3) \<Rightarrow>
                    (case hook_callAsync_parallel env ''make'' (ArgCompilation c) s3 of
                       (Some err, a4, s4) \<Rightarrow> (Inl (CbError err), s4)
                     | (None, a4, s4) \<Rightarrow>
                         (case finish env (the_compilation c a4) (world s4) of
                            (c5, w5) \<Rightarrow>
                              (case seal env c5 w5 of
                                 (Some err, c6, w6) \<Rightarrow> (Inl (CbError err), s4\<lparr>world := w6\<rparr>)
                               | (None, c6, w6) \<Rightarrow>
                                   (case hook_callAsync env ''afterCompile'' (ArgCompilation c6)
                                           (s4\<lparr>world := w6\<rparr>) of
                                      (Some err, a7, s7) \<Rightarrow> (Inl (CbError err), s7)
                                    | (None, a7, s7) \<Rightarrow>
                                        (Inr (the_compilation c6 a7), s7))))))))"

section \<open>The entry points\<close>

text \<open>
  The methods \<open>runAsChild\<close>, \<open>purgeInputFileSystem\<close> and \<open>isChild\<close> of the class are used
  by no statement below and are left out.
\<close>

text \<open>
  \<open>watch\<close>: the guard, then the three assignments. The result \<open>None\<close> stands for the
  \<open>new Watching(this, watchOptions, handler)\<close> that is returned, built on the compiler
  as the state holds it; class Watching is not among the sources.
\<close>

definition watch :: "'w state \<Rightarrow> error option \<times> 'w state" where
  "watch s =
     (if running (self s) then (Some ConcurrentCompilationError, s)
      else
        (case alloc (heap s) (HMap []) of
           (ft, h1) \<Rightarrow>
             (case alloc h1 (HMap []) of
                (ct, h2) \<Rightarrow>
                  (None,
                   s\<lparr>self := (self s)\<lparr>running := True, fileTimestamps := ft,
                                       contextTimestamps := ct\<rparr>,
                     heap := h2\<rparr>))))"

text \<open>
  What \<open>run\<close> ends with: \<open>Callback err stats\<close> is \<open>callback(err, stats)\<close>, called by the
  guard or by \<open>finalCallback\<close> (which, given no callback, does its assignment and calls
  nothing); \<open>Exception\<close> is an exception leaving \<open>run\<close>, after which \<open>finalCallback\<close> is
  not reached.
\<close>

datatype outcome = Callback "error option" "stats option" | Exception string

definition finalCallback :: "failure + stats \<Rightarrow> 'w state \<Rightarrow> outcome \<times> 'w state" where
  "finalCallback r s =
     (case r of
        Inl (Uncaught m) \<Rightarrow> (Exception m, s)
      | Inl (CbError err) \<Rightarrow> (Callback (Some err) None, s\<lparr>self := (self s)\<lparr>running := False\<rparr>\<rparr>)
      | Inr st \<Rightarrow> (Callback None (Some st), s\<lparr>self := (self s)\<lparr>running := False\<rparr>\<rparr>))"

text \<open>
  The three statements \<open>new Stats\<close>, \<open>stats.startTime = startTime\<close>,
  \<open>stats.endTime = Date.now()\<close> and the call of the \<open>done\<close> hook, which \<open>onCompiled\<close>
  repeats on each of its three paths.
\<close>

definition done_report ::
  "'w env \<Rightarrow> nat \<Rightarrow> compilation \<Rightarrow> 'w state \<Rightarrow> error option \<times> stats \<times> 'w state" where
  "done_report env startT c s =
     (case Date_now env (world s) of
        (t, w1) \<Rightarrow>
          (let st = (new_Stats c)\<lparr>startTime := Some startT, endTime := Some t\<rparr> in
           case hook_callAsync env ''done'' (ArgStats st) (s\<lparr>world := w1\<rparr>) of
             (r, a, s1) \<Rightarrow> (r, st, s1)))"

text \<open>
  The body of \<open>onCompiled\<close> for a session that compiled: it either reaches
  \<open>finalCallback\<close> (\<open>Finished\<close>) or calls \<open>this.compile(onCompiled)\<close> again (\<open>Again\<close>).
\<close>

datatype 'w step = Finished "failure + stats" "'w state" | Again "'w state"

definition onCompiled_body :: "'w env \<Rightarrow> nat \<Rightarrow> compilation \<Rightarrow> 'w state \<Rightarrow> 'w step" where
  "onCompiled_body env startT c s =
     (case hook_call_bail env ''shouldEmit'' (ArgCompilation c) s of
        (v, a, s1) \<Rightarrow>
          if v = JBool False then
            (case done_report env startT (the_compilation c a) s1 of
               (Some err, st, s2) \<Rightarrow> Finished (Inl (CbError err)) s2
             | (None, st, s2) \<Rightarrow> Finished (Inr st) s2)
          else
            (case emitAssets env (the_compilation c a) s1 of
               (Some f, c2, s2) \<Rightarrow> Finished (Inl f) s2
             | (None, c2, s2) \<Rightarrow>
                 (case needAdditionalPass_call env c2 (world s2) of
                    (v2, w3) \<Rightarrow>
                      if truthy v2 then
                        (case done_report env startT (c2\<lparr>needAdditionalPass := True\<rparr>)
                                (s2\<lparr>world := w3\<rparr>) of
                           (Some err, st, s4) \<Rightarrow> Finished (Inl (CbError err)) s4
                         | (None, st, s4) \<Rightarrow>
                             (case hook_callAsync env ''additionalPass'' ArgNone s4 of
                                (Some err, a5, s5) \<Rightarrow> Finished (Inl (CbError err)) s5
                              | (None, a5, s5) \<Rightarrow> Again s5))
                      else
                        (case emitRecords env (s2\<lparr>world := w3\<rparr>) of
                           (Some f, s4) \<Rightarrow> Finished (Inl f) s4
                         | (None, s4) \<Rightarrow>
                             (case done_report env startT c2 s4 of
                                (Some err, st, s5) \<Rightarrow> Finished (Inl (CbError err)) s5
                              | (None, st, s5) \<Rightarrow> Finished (Inr st) s5)))))"

text \<open>
  \<open>onCompiled\<close> is handed the result of \<open>compile\<close>. The additional-pass loop has no bound
  in the source, so the model counts the sessions it may still process: \<open>None\<close> means
  that the count did not suffice.
\<close>

fun onCompiled ::
  "'w env \<Rightarrow> nat \<Rightarrow> nat \<Rightarrow> (failure + compilation) \<times> 'w state
     \<Rightarrow> ((failure + stats) \<times> 'w state) option" where
  "onCompiled env startT n (Inl f, s) = Some (Inl f, s)"
| "onCompiled env startT 0 (Inr c, s) = None"
| "onCompiled env startT (Suc n) (Inr c, s) =
     (case onCompiled_body env startT c s of
        Finished r s1 \<Rightarrow> Some (r, s1)
      | Again s1 \<Rightarrow> onCompiled env startT n (compile env s1))"

definition run :: "'w env \<Rightarrow> nat \<Rightarrow> 'w state \<Rightarrow> (outcome \<times> 'w state) option" where
  "run env fuel s =
     (if running (self s) then Some (Callback (Some ConcurrentCompilationError) None, s)
      else
        (case Date_now env (world s) of
           (startT, w1) \<Rightarrow>
             (let s1 = s\<lparr>self := (self s)\<lparr>running := True\<rparr>, world := w1\<rparr> in
              case hook_callAsync env ''beforeRun'' (ArgCompiler (self s1)) s1 of
                (Some err, a2, s2) \<Rightarrow> Some (finalCallback (Inl (CbError err)) s2)
              | (None, a2, s2) \<Rightarrow>
                  (case hook_callAsync env ''run'' (ArgCompiler (self s2)) s2 of
                     (Some err, a3, s3) \<Rightarrow> Some (finalCallback (Inl (CbError err)) s3)
                   | (None, a3, s3) \<Rightarrow>
                       (case readRecords env s3 of
                          (Some f, s4) \<Rightarrow> Some (finalCallback (Inl f) s4)
                        | (None, s4) \<Rightarrow>
                            (case onCompiled env startT fuel (compile env s4) of
                               None \<Rightarrow> None
                             | Some (r, s5) \<Rightarrow> Some (finalCallback r s5)))))))"

section \<open>Construction and child compilers\<close>

definition hook_names :: "string list" where
  "hook_names =
     [''shouldEmit'', ''done'', ''additionalPass'', ''beforeRun'', ''run'', ''emit'',
      ''afterEmit'', ''thisCompilation'', ''compilation'', ''normalModuleFactory'',
      ''contextModuleFactory'', ''beforeCompile'', ''compile'', ''make'', ''afterCompile'',
      ''watchRun'', ''failed'', ''invalid'', ''watchClose'', ''environment'',
      ''afterEnvironment'', ''afterPlugins'', ''afterResolvers'', ''entryOption'']"

primrec alloc_hooks :: "string list \<Rightarrow> heap \<Rightarrow> (string \<times> addr) list \<times> heap" where
  "alloc_hooks [] h = ([], h)"
| "alloc_hooks (n # ns) h =
     (case alloc h (HTaps []) of
        (a, h1) \<Rightarrow> (case alloc_hooks ns h1 of (hs, h2) \<Rightarrow> ((n, a) # hs, h2)))"

text \<open>
  The constructor: a hook with an empty \<open>taps\<close> array for each name, \<open>records = {}\<close>,
  two empty timestamp maps, a resolver factory of its own and \<open>options = {}\<close>, so that
  \<open>options.output\<close> is \<open>undefined\<close>. The deprecated
  \<open>resolvers\<close> shims and the \<open>_pluginCompat\<close> tap hold no state of the build and are
  left out.
\<close>

definition new_Compiler :: "string \<Rightarrow> heap \<Rightarrow> compiler \<times> heap" where
  "new_Compiler ctx h =
     (case alloc_hooks hook_names h of
        (hs, h1) \<Rightarrow>
          (case alloc h1 (HObj []) of
             (r, h2) \<Rightarrow>
               (case alloc h2 (HMap []) of
                  (ft, h3) \<Rightarrow>
                    (case alloc h3 (HMap []) of
                       (ct, h4) \<Rightarrow>
                         (case alloc h4 (HObj []) of
                            (rf, h5) \<Rightarrow>
                              (\<lparr>hooks = hs, name = None, parentCompilation = None,
                                outputPath = [], outputFileSystem = None,
                                inputFileSystem = None, recordsInputPath = None,
                                recordsOutputPath = None, records = JRef r,
                                fileTimestamps = ft, contextTimestamps = ct,
                                resolverFactory = rf, options_output = None,
                                compiler_context = ctx, running = False\<rparr>, h5))))))"

text \<open>
  Modelled from the spec: \<open>hook.tap\<close> (package \<open>tapable\<close>) appends the tap to the hook's
  own \<open>taps\<close> array, in place. \<open>None\<close>: the compiler has no hook of that name, and the
  call throws.
\<close>

definition tap_hook :: "compiler \<Rightarrow> string \<Rightarrow> string \<Rightarrow> heap \<Rightarrow> heap option" where
  "tap_hook c n t h =
     (case map_of (hooks c) n of
        None \<Rightarrow> None
      | Some a \<Rightarrow>
          (case hget h a of
             Some (HTaps ts) \<Rightarrow> Some (hset h a (HTaps (ts @ [t])))
           | _ \<Rightarrow> None))"

text \<open>\<open>plugin.apply(childCompiler)\<close>: the plugin's registrations, in order.\<close>

primrec apply_plugin :: "compiler \<Rightarrow> plugin \<Rightarrow> heap \<Rightarrow> heap option" where
  "apply_plugin c [] h = Some h"
| "apply_plugin c (r # rs) h =
     (case tap_hook c (fst r) (snd r) h of
        None \<Rightarrow> None
      | Some h1 \<Rightarrow> apply_plugin c rs h1)"

primrec apply_plugins :: "compiler \<Rightarrow> plugin list \<Rightarrow> heap \<Rightarrow> heap option" where
  "apply_plugins c [] h = Some h"
| "apply_plugins c (p # ps) h =
     (case apply_plugin c p h of
        None \<Rightarrow> None
      | Some h1 \<Rightarrow> apply_plugins c ps h1)"

definition excluded_hooks :: "string list" where
  "excluded_hooks =
     [''make'', ''compile'', ''emit'', ''afterEmit'', ''invalid'', ''done'',
      ''thisCompilation'']"

definition hooks_set :: "string \<Rightarrow> addr \<Rightarrow> (string \<times> addr) list \<Rightarrow> (string \<times> addr) list" where
  "hooks_set n a hs = map (\<lambda>ka. if fst ka = n then (n, a) else ka) hs"

text \<open>
  The loop \<open>for (const name in this.hooks)\<close> over the names still to visit: for a name
  that is not excluded and that the child has, the child's hook gets a new array with
  the elements of the parent's (\<open>slice()\<close>).
\<close>

primrec inherit_taps ::
  "compiler \<Rightarrow> string list \<Rightarrow> compiler \<Rightarrow> heap \<Rightarrow> (compiler \<times> heap) option" where
  "inherit_taps p [] ch h = Some (ch, h)"
| "inherit_taps p (n # ns) ch h =
     (if n \<notin> set excluded_hooks \<and> map_of (hooks ch) n \<noteq> None then
        (case map_of (hooks p) n of
           None \<Rightarrow> None
         | Some a \<Rightarrow>
             (case hget h a of
                Some (HTaps ts) \<Rightarrow>
                  (case alloc h (HTaps ts) of
                     (a', h1) \<Rightarrow>
                       inherit_taps p ns (ch\<lparr>hooks := hooks_set n a' (hooks ch)\<rparr>) h1)
              | _ \<Rightarrow> None))
      else inherit_taps p ns ch h)"

text \<open>
  A call of \<open>createChildCompiler\<close> that throws is \<open>Inl\<close>. \<open>JsTypeError\<close> is a TypeError of
  the source (a method call on \<open>undefined\<close>). \<open>OutsideModel\<close> marks a record store that
  is not of the shape of section 3 of the spec (an object whose entry for a name is an
  array): the model says nothing about the call then.
\<close>

datatype cc_failure = JsTypeError | OutsideModel

text \<open>
  The second conditional on \<open>this.records[relativeCompilerName]\<close>, for the array at
  address \<open>l\<close> with elements \<open>xs\<close>: an element at the index that is truthy is the child's
  records; otherwise a new empty object is pushed and is the child's records.
\<close>

definition records_entry :: "addr \<Rightarrow> jsval list \<Rightarrow> nat \<Rightarrow> heap \<Rightarrow> jsval \<times> heap" where
  "records_entry l xs compilerIndex h =
     (if compilerIndex < length xs \<and> truthy (xs ! compilerIndex) then (xs ! compilerIndex, h)
      else
        (case alloc h (HObj []) of
           (ob, h1) \<Rightarrow> (JRef ob, hset h1 l (HArr (xs @ [JRef ob])))))"

definition child_records ::
  "'w env \<Rightarrow> compiler \<Rightarrow> string \<Rightarrow> nat \<Rightarrow> heap \<Rightarrow> cc_failure + jsval \<times> heap" where
  "child_records env p compilerName compilerIndex h =
     (let relativeCompilerName = makePathsRelative env (compiler_context p) compilerName in
      case records p of
        JUndefined \<Rightarrow> Inl JsTypeError
      | JNull \<Rightarrow> Inl JsTypeError
      | JRef r \<Rightarrow>
          (case hget h r of
             Some (HObj kvs) \<Rightarrow>
               (case map_of kvs relativeCompilerName of
                  None \<Rightarrow>
                    if relativeCompilerName \<in> set Object_prototype_names then Inl JsTypeError
                    else
                      (case alloc h (HArr []) of
                         (l, h1) \<Rightarrow>
                           Inr (records_entry l [] compilerIndex
                                  (hset h1 r (HObj (obj_set relativeCompilerName (JRef l) kvs)))))
                | Some v \<Rightarrow>
                    if \<not> truthy v then
                      (case alloc h (HArr []) of
                         (l, h1) \<Rightarrow>
                           Inr (records_entry l [] compilerIndex
                                  (hset h1 r (HObj (obj_set relativeCompilerName (JRef l) kvs)))))
                    else
                      (case v of
                         JRef l \<Rightarrow>
                           (case hget h l of
                              Some (HArr xs) \<Rightarrow> Inr (records_entry l xs compilerIndex h)
                            | _ \<Rightarrow> Inl OutsideModel)
                       | _ \<Rightarrow> Inl OutsideModel))
           | _ \<Rightarrow> Inl OutsideModel)
      | _ \<Rightarrow> Inl OutsideModel)"

text \<open>
  \<open>cmp\<close> is the argument \<open>compilation\<close>; \<open>plugins\<close> is \<open>None\<close> when the argument is not
  an array; the last step is \<open>compilation.hooks.childCompiler.call\<close>. After the records,
  \<open>Object.create(childCompiler.options.output)\<close> reads the parent's \<open>options.output\<close>
  through the prototype of the child's options and throws a TypeError when it is
  \<open>undefined\<close>; otherwise the child's \<open>options.output\<close> puts \<open>outputOptions\<close> in front of
  the parent's.
\<close>

definition createChildCompiler ::
  "'w env \<Rightarrow> compiler \<Rightarrow> compilation \<Rightarrow> string \<Rightarrow> nat \<Rightarrow> (string \<times> jsval) list
     \<Rightarrow> plugin list option \<Rightarrow> heap \<Rightarrow> cc_failure + compiler \<times> heap" where
  "createChildCompiler env p cmp compilerName compilerIndex outputOptions plugins h =
     (case new_Compiler (compiler_context p) h of
        (ch0, h1) \<Rightarrow>
          (case (case plugins of None \<Rightarrow> Some h1 | Some ps \<Rightarrow> apply_plugins ch0 ps h1) of
             None \<Rightarrow> Inl JsTypeError
           | Some h2 \<Rightarrow>
               (case inherit_taps p (map fst (hooks p)) ch0 h2 of
                  None \<Rightarrow> Inl OutsideModel
                | Some (ch1, h3) \<Rightarrow>
                    (let ch2 = ch1\<lparr>name := Some compilerName, outputPath := outputPath p,
                                   inputFileSystem := inputFileSystem p,
                                   outputFileSystem := None,
                                   resolverFactory := resolverFactory p,
                                   fileTimestamps := fileTimestamps p,
                                   contextTimestamps := contextTimestamps p\<rparr>
                     in case child_records env p compilerName compilerIndex h3 of
                          Inl f \<Rightarrow> Inl f
                        | Inr (rv, h4) \<Rightarrow>
                            (case options_output p of
                               None \<Rightarrow> Inl JsTypeError
                             | Some po \<Rightarrow>
                                 (let ch3 = ch2\<lparr>records := rv,
                                                options_output := Some (outputOptions @ po),
                                                parentCompilation := Some cmp\<rparr>
                                  in case apply_plugins ch3 (hooks_childCompiler cmp) h4 of
                                       None \<Rightarrow> Inl JsTypeError
                                     | Some h5 \<Rightarrow> Inr (ch3, h5)))))))"

section \<open>Observations\<close>

text \<open>
  The stages of \<open>run\<close> that come before \<open>onCompiled\<close>, as one function: \<open>run\<close> is
  \<open>finalCallback\<close> after \<open>onCompiled\<close> after these (lemma \<open>run_eq\<close>).
\<close>

definition run_stages :: "'w env \<Rightarrow> 'w state \<Rightarrow> (failure + compilation) \<times> 'w state" where
  "run_stages env s1 =
     (case hook_callAsync env ''beforeRun'' (ArgCompiler (self s1)) s1 of
        (Some err, a2, s2) \<Rightarrow> (Inl (CbError err), s2)
      | (None, a2, s2) \<Rightarrow>
          (case hook_callAsync env ''run'' (ArgCompiler (self s2)) s2 of
             (Some err, a3, s3) \<Rightarrow> (Inl (CbError err), s3)
           | (None, a3, s3) \<Rightarrow>
               (case readRecords env s3 of
                  (Some f, s4) \<Rightarrow> (Inl f, s4)
                | (None, s4) \<Rightarrow> compile env s4)))"

text \<open>The two timestamp tables of the compiler, read through the store.\<close>

definition file_table :: "'w state \<Rightarrow> cell option" where
  "file_table s = hget (heap s) (fileTimestamps (self s))"

definition context_table :: "'w state \<Rightarrow> cell option" where
  "context_table s = hget (heap s) (contextTimestamps (self s))"

fun event_label :: "event \<Rightarrow> string" where
  "event_label (HookCall n a) = n"
| "event_label (FsMkdirp p) = ''mkdirp '' @ p"
| "event_label (FsWriteFile p c) = ''writeFile '' @ p"
| "event_label (FsStat p) = ''stat '' @ p"
| "event_label (FsReadFile p) = ''readFile '' @ p"

fun is_write :: "event \<Rightarrow> bool" where
  "is_write (FsWriteFile p c) = True"
| "is_write e = False"


section \<open>A concrete environment\<close>

text \<open>
  One environment on which the definitions are run: a clock that ticks at every reading,
  a session that asks for as many additional passes as \<open>passes\<close> says, a tap called
  \<open>veto\<close> that answers \<open>false\<close> on \<open>shouldEmit\<close>, an async tap called \<open>fail\<close> that fails,
  a disk on which nothing below \<open>/ro\<close> can be created, two records files of which
  one does not parse, and a seal step that produces two assets.
\<close>

record demo_world =
  clock :: nat
  passes :: nat

definition demo_assets :: "(string \<times> asset) list" where
  "demo_assets =
     [(''main.js?v=1'', \<lparr>source = Text ''code'', existsAt = None, emitted = None\<rparr>),
      (''js/app.js'',
       \<lparr>source = Buffer [1, 2], existsAt = Some ''/dist/js/app.js'', emitted = None\<rparr>)]"

definition demo_env :: "demo_world env" where
  "demo_env =
     \<lparr>sync_tap = (\<lambda>h t a w.
         (if h = ''shouldEmit'' \<and> t = ''veto'' then JBool False else JUndefined, a, w)),
      async_tap = (\<lambda>h t a w. (if t = ''fail'' then Some (Error ''tap failed'') else None, a, w)),
      Date_now = (\<lambda>w. (clock w, w\<lparr>clock := Suc (clock w)\<rparr>)),
      fs_join = (\<lambda>a b. a @ ''/'' @ b),
      fs_mkdirp = (\<lambda>p w. (if take 3 p = ''/ro'' then Some (Error ''EACCES'') else None, w)),
      fs_writeFile = (\<lambda>p c w. (None, w)),
      fs_stat = (\<lambda>p w.
         (if p = ''/in/records.json'' \<or> p = ''/in/broken.json'' then None
          else Some (Error ''ENOENT''), w)),
      fs_readFile = (\<lambda>p w. (if p = ''/in/records.json'' then Inr [123, 125] else Inr [123], w)),
      path_dirname = (\<lambda>t. rev (drop 1 (dropWhile (\<lambda>c. c \<noteq> CHR ''/'') (rev t)))),
      Buffer_from = map of_char,
      Buffer_toString = map char_of,
      parseJson = (\<lambda>t. if t = ''{}'' then Inr (JsObj [])
                        else Inl ''Unexpected end of JSON input''),
      JSON_stringify = (\<lambda>h v. ''{}''),
      makePathsRelative = (\<lambda>c n. n),
      getPath = (\<lambda>c p. p),
      finish = (\<lambda>c w. (c, w)),
      seal = (\<lambda>c w. (None, c\<lparr>assets := demo_assets\<rparr>, w)),
      needAdditionalPass_call = (\<lambda>c w.
         (if 0 < passes w then JBool True else JUndefined, w\<lparr>passes := passes w - 1\<rparr>))\<rparr>"

text \<open>
  A compiler as the constructor leaves it, with its paths, its file systems and the
  output options set, and one entry in its table of file timestamps.
\<close>

definition demo_compiler :: compiler where
  "demo_compiler =
     (fst (new_Compiler ''/proj'' []))
       \<lparr>outputPath := ''/dist'', outputFileSystem := Some 1, inputFileSystem := Some 0,
        recordsOutputPath := Some ''/out/records.json'',
        options_output := Some [(''path'', JStr ''/dist'')]\<rparr>"

definition demo_heap :: heap where
  "demo_heap =
     hset (snd (new_Compiler ''/proj'' [])) (fileTimestamps demo_compiler)
       (HMap [(''/proj/src/index.js'', 7)])"

definition demo_state :: "demo_world state" where
  "demo_state =
     \<lparr>self = demo_compiler, heap = demo_heap, world = \<lparr>clock = 100, passes = 0\<rparr>, trace = []\<rparr>"

definition demo_busy :: "demo_world state" where
  "demo_busy = demo_state\<lparr>self := demo_compiler\<lparr>running := True\<rparr>\<rparr>"

definition demo_veto :: "demo_world state" where
  "demo_veto =
     demo_state\<lparr>heap := the (tap_hook demo_compiler ''shouldEmit'' ''veto'' demo_heap)\<rparr>"

definition demo_again :: "demo_world state" where
  "demo_again = demo_state\<lparr>world := \<lparr>clock = 100, passes = 1\<rparr>\<rparr>"

definition demo_broken :: "demo_world state" where
  "demo_broken = demo_state\<lparr>self := demo_compiler\<lparr>recordsInputPath := Some ''/in/broken.json''\<rparr>\<rparr>"

text \<open>The state and the summary with which the one-shot build of \<open>demo_state\<close> ends.\<close>

definition demo_done :: "demo_world state" where
  "demo_done = snd (the (run demo_env 1 demo_state))"

definition demo_stats :: stats where
  "demo_stats = (case fst (the (run demo_env 1 demo_state)) of Callback e st \<Rightarrow> the st)"

text \<open>The same for the build of \<open>demo_veto\<close>, whose \<open>shouldEmit\<close> hook has the tap \<open>veto\<close>.\<close>

definition demo_veto_done :: "demo_world state" where
  "demo_veto_done = snd (the (run demo_env 1 demo_veto))"

definition demo_veto_stats :: stats where
  "demo_veto_stats = (case fst (the (run demo_env 1 demo_veto)) of Callback e st \<Rightarrow> the st)"

definition demo_session :: compilation where
  "demo_session = (createCompilation demo_compiler)\<lparr>assets := demo_assets\<rparr>"

text \<open>
  The states a build of \<open>demo_again\<close> goes through when its first session asks for an
  additional pass: after \<open>compile\<close>, after \<open>shouldEmit\<close>, after \<open>emitAssets\<close>, after the
  \<open>done\<close> hook and after the \<open>additionalPass\<close> hook.
\<close>

definition demo_s0 :: "demo_world state" where
  "demo_s0 = snd (compile demo_env demo_again)"

definition demo_c0 :: compilation where
  "demo_c0 = (case fst (compile demo_env demo_again) of Inr c \<Rightarrow> c)"

definition demo_s1 :: "demo_world state" where
  "demo_s1 = snd (snd (hook_call_bail demo_env ''shouldEmit'' (ArgCompilation demo_c0) demo_s0))"

definition demo_c2 :: compilation where
  "demo_c2 = fst (snd (emitAssets demo_env demo_c0 demo_s1))"

definition demo_s2 :: "demo_world state" where
  "demo_s2 = snd (snd (emitAssets demo_env demo_c0 demo_s1))"

definition demo_st :: stats where
  "demo_st = \<lparr>compilation = demo_c2\<lparr>needAdditionalPass := True\<rparr>, startTime = Some 100,
              endTime = Some 100\<rparr>"

definition demo_s4 :: "demo_world state" where
  "demo_s4 = snd (snd (hook_callAsync demo_env ''done'' (ArgStats demo_st)
                         (demo_s2\<lparr>world := \<lparr>clock = 101, passes = 0\<rparr>\<rparr>)))"

definition demo_s5 :: "demo_world state" where
  "demo_s5 = snd (snd (hook_callAsync demo_env ''additionalPass'' ArgNone demo_s4))"

text \<open>The states of the build of \<open>demo_broken\<close> after its \<open>beforeRun\<close> and \<open>run\<close> hooks.\<close>

definition demo_broken2 :: "demo_world state" where
  "demo_broken2 =
     snd (snd (hook_callAsync demo_env ''beforeRun''
                 (ArgCompiler ((self demo_broken)\<lparr>running := True\<rparr>))
                 (demo_broken\<lparr>self := (self demo_broken)\<lparr>running := True\<rparr>,
                    world := snd (Date_now demo_env (world demo_broken))\<rparr>)))"

definition demo_broken3 :: "demo_world state" where
  "demo_broken3 =
     snd (snd (hook_callAsync demo_env ''run'' (ArgCompiler (self demo_broken2)) demo_broken2))"

text \<open>The record store of the compiler, read through the store.\<close>

definition records_cell :: "'w state \<Rightarrow> cell option" where
  "records_cell s = (case records (self s) of JRef a \<Rightarrow> hget (heap s) a | _ \<Rightarrow> None)"

text \<open>
  Two assets: one that was emitted before to a directory that cannot be created any
  more, and one with textual content that was never emitted.
\<close>

definition demo_ro_asset :: asset where
  "demo_ro_asset = \<lparr>source = Buffer [1, 2], existsAt = Some ''/ro/js/app.js'', emitted = None\<rparr>"

definition demo_text_asset :: asset where
  "demo_text_asset = \<lparr>source = Text ''code'', existsAt = None, emitted = None\<rparr>"

section \<open>Observations on the store\<close>

text \<open>
  The addresses of the \<open>taps\<close> arrays of a compiler; a compiler whose hooks have distinct
  names and distinct arrays that exist in the store; a compiler whose arrays lie inside
  the store; the taps that a list of plugins registers on the hook \<open>n\<close>, in order; and
  the entry of a compiler's record store under a name at an index.
\<close>

definition hook_addrs :: "compiler \<Rightarrow> addr set" where
  "hook_addrs c = snd ` set (hooks c)"

definition wf_hooks :: "compiler \<Rightarrow> heap \<Rightarrow> bool" where
  "wf_hooks c h \<longleftrightarrow>
     distinct (map fst (hooks c)) \<and> distinct (map snd (hooks c)) \<and>
     (\<forall>a \<in> hook_addrs c. \<exists>ts. hget h a = Some (HTaps ts))"

definition regs :: "string \<Rightarrow> plugin list \<Rightarrow> string list" where
  "regs n ps = map snd (filter (\<lambda>r. fst r = n) (concat ps))"

definition hooks_valid :: "compiler \<Rightarrow> heap \<Rightarrow> bool" where
  "hooks_valid c h = list_all (\<lambda>ka. snd ka < length h) (hooks c)"



text \<open>
  Child compilers of \<open>demo_compiler\<close>: one spawned with a plugin that taps \<open>make\<close>; one
  spawned from a parent that has taps of its own, and the store after a later tap on
  that parent; and one spawned at index 0 under the name \<open>manifest\<close>, the first child
  of that name.
\<close>

definition demo_child_make :: "cc_failure + compiler \<times> heap" where
  "demo_child_make =
     createChildCompiler demo_env demo_compiler demo_session ''html'' 0 []
       (Some [[(''make'', ''SingleEntryPlugin'')]]) demo_heap"

definition demo_child_heap :: heap where
  "demo_child_heap = (case demo_child_make of Inr ch \<Rightarrow> snd ch)"

definition demo_child :: compiler where
  "demo_child = (case demo_child_make of Inr ch \<Rightarrow> fst ch)"

definition demo_parent_heap :: heap where
  "demo_parent_heap = the (tap_hook demo_compiler ''emit'' ''CopyPlugin''
       (the (tap_hook demo_compiler ''afterCompile'' ''Logger'' demo_heap)))"

definition demo_child2_make :: "cc_failure + compiler \<times> heap" where
  "demo_child2_make =
     createChildCompiler demo_env demo_compiler demo_session ''html'' 0 []
       (Some [[(''make'', ''SingleEntryPlugin'')]]) demo_parent_heap"

definition demo_child2 :: compiler where
  "demo_child2 = (case demo_child2_make of Inr ch \<Rightarrow> fst ch)"

definition demo_child2_heap :: heap where
  "demo_child2_heap = (case demo_child2_make of Inr ch \<Rightarrow> snd ch)"

definition demo_later_heap :: heap where
  "demo_later_heap = the (tap_hook demo_compiler ''afterCompile'' ''Late'' demo_child2_heap)"

definition demo_m1_make :: "cc_failure + compiler \<times> heap" where
  "demo_m1_make =
     createChildCompiler demo_env demo_compiler demo_session ''manifest'' 0 [] None demo_heap"


definition demo_m1_heap :: heap where
  "demo_m1_heap = (case demo_m1_make of Inr ch \<Rightarrow> snd ch)"

text \<open>
  The parent after it spawned \<open>demo_m1\<close>, now with an input path for its records at
  which there is no file.
\<close>

definition demo_missing :: "demo_world state" where
  "demo_missing =
     demo_state\<lparr>self := demo_compiler\<lparr>recordsInputPath := Some ''/in/none.json''\<rparr>,
                heap := demo_m1_heap\<rparr>"















section \<open>Lemmas on the stages\<close>

text \<open>
  What a tap does to the compiler, the store and the world is its own affair; what the
  lemmas below follow through the stages is the trace, which only grows.
\<close>

lemma hook_call_trace:
  "hook_call env n a s = (a1, s1) \<Longrightarrow> trace s1 = trace s @ [HookCall n a]"
  by (auto simp: hook_call_def split: prod.splits)

lemma hook_call_bail_trace:
  "hook_call_bail env n a s = (v, a1, s1) \<Longrightarrow> trace s1 = trace s @ [HookCall n a]"
  by (auto simp: hook_call_bail_def split: prod.splits)

lemma hook_callAsync_trace:
  "hook_callAsync env n a s = (r, a1, s1) \<Longrightarrow> trace s1 = trace s @ [HookCall n a]"
  by (auto simp: hook_callAsync_def split: prod.splits)

lemma hook_callAsync_parallel_trace:
  "hook_callAsync_parallel env n a s = (r, a1, s1) \<Longrightarrow> trace s1 = trace s @ [HookCall n a]"
  by (auto simp: hook_callAsync_parallel_def split: prod.splits)

lemma newCompilationParams_trace:
  "trace (newCompilationParams env s) =
     trace s @ [HookCall ''normalModuleFactory'' (ArgFactory ''NormalModuleFactory''),
                HookCall ''contextModuleFactory'' (ArgFactory ''ContextModuleFactory'')]"
  by (auto simp: newCompilationParams_def split: prod.splits dest!: hook_call_trace)

lemma newCompilation_trace:
  "newCompilation env s = (c, s') \<Longrightarrow>
     (\<exists>c1. trace s' =
        trace s @ [HookCall ''thisCompilation'' (ArgCompilation (createCompilation (self s))),
                   HookCall ''compilation'' (ArgCompilation c1)])"
  by (auto simp: newCompilation_def Let_def split: prod.splits dest!: hook_call_trace)

lemma compile_grows: "compile env s = (r, s') \<Longrightarrow> prefix (trace s) (trace s')"
  unfolding compile_def
  by (auto split: prod.splits option.splits simp: newCompilationParams_trace
           dest!: hook_call_trace hook_callAsync_trace hook_callAsync_parallel_trace
                  newCompilation_trace)

lemma emitAssets_grows: "emitAssets env c s = (r, c', s') \<Longrightarrow> prefix (trace s) (trace s')"
  unfolding emitAssets_def
  by (auto split: prod.splits option.splits if_splits simp: Let_def
           dest!: hook_callAsync_trace)

lemma writeFile_records_grows:
  "writeFile_records env p s = (r, s') \<Longrightarrow> prefix (trace s) (trace s')"
  unfolding writeFile_records_def
  by (auto split: prod.splits if_splits simp: Let_def)

lemma emitRecords_grows: "emitRecords env s = (r, s') \<Longrightarrow> prefix (trace s) (trace s')"
  unfolding emitRecords_def
  by (auto split: prod.splits option.splits if_splits simp: Let_def
           dest!: writeFile_records_grows dest: append_prefixD)

lemma done_report_grows:
  "done_report env t c s = (r, st, s') \<Longrightarrow> prefix (trace s) (trace s')"
  unfolding done_report_def
  by (auto split: prod.splits simp: Let_def dest!: hook_callAsync_trace)

lemma onCompiled_body_grows:
  assumes "onCompiled_body env t c s = Finished r s' \<or> onCompiled_body env t c s = Again s'"
  shows "prefix (trace s) (trace s')"
proof -
  obtain v a s1 where se: "hook_call_bail env ''shouldEmit'' (ArgCompilation c) s = (v, a, s1)"
    by (cases "hook_call_bail env ''shouldEmit'' (ArgCompilation c) s") auto
  have p1: "prefix (trace s) (trace s1)" using hook_call_bail_trace[OF se] by simp
  show ?thesis
  proof (cases "v = JBool False")
    case True
    obtain r2 st s2 where dr: "done_report env t (the_compilation c a) s1 = (r2, st, s2)"
      by (cases "done_report env t (the_compilation c a) s1") auto
    have "s' = s2"
      using assms se True dr by (auto simp: onCompiled_body_def split: option.splits)
    with p1 done_report_grows[OF dr] show ?thesis by (auto intro: prefix_order.trans)
  next
    case False
    obtain r2 c2 s2 where em: "emitAssets env (the_compilation c a) s1 = (r2, c2, s2)"
      by (cases "emitAssets env (the_compilation c a) s1") auto
    have p2: "prefix (trace s) (trace s2)"
      using p1 emitAssets_grows[OF em] by (rule prefix_order.trans)
    show ?thesis
    proof (cases r2)
      case (Some f)
      with assms se False em have "s' = s2" by (auto simp: onCompiled_body_def)
      with p2 show ?thesis by simp
    next
      case None
      obtain v2 w3 where np: "needAdditionalPass_call env c2 (world s2) = (v2, w3)"
        by (cases "needAdditionalPass_call env c2 (world s2)")
      show ?thesis
      proof (cases "truthy v2")
        case True
        obtain r4 st s4 where
          dr: "done_report env t (c2\<lparr>needAdditionalPass := True\<rparr>) (s2\<lparr>world := w3\<rparr>) =
                 (r4, st, s4)"
          by (cases "done_report env t (c2\<lparr>needAdditionalPass := True\<rparr>) (s2\<lparr>world := w3\<rparr>)")
             auto
        have p4: "prefix (trace s) (trace s4)"
          using p2 done_report_grows[OF dr] by (auto intro: prefix_order.trans)
        show ?thesis
        proof (cases r4)
          case (Some err)
          with assms se False em None np True dr have "s' = s4"
            by (auto simp: onCompiled_body_def)
          with p4 show ?thesis by simp
        next
          case r4: None
          obtain r5 a5 s5 where
            ap: "hook_callAsync env ''additionalPass'' ArgNone s4 = (r5, a5, s5)"
            by (cases "hook_callAsync env ''additionalPass'' ArgNone s4") auto
          have "s' = s5"
            using assms se False em None np True dr r4 ap
            by (auto simp: onCompiled_body_def split: option.splits)
          with p4 hook_callAsync_trace[OF ap] show ?thesis
            by (auto intro: prefix_order.trans)
        qed
      next
        case nt: False
        obtain r4 s4 where er: "emitRecords env (s2\<lparr>world := w3\<rparr>) = (r4, s4)"
          by (cases "emitRecords env (s2\<lparr>world := w3\<rparr>)")
        have p4: "prefix (trace s) (trace s4)"
          using p2 emitRecords_grows[OF er] by (auto intro: prefix_order.trans)
        show ?thesis
        proof (cases r4)
          case (Some f)
          with assms se False em None np nt er have "s' = s4"
            by (auto simp: onCompiled_body_def)
          with p4 show ?thesis by simp
        next
          case r4: None
          obtain r5 st s5 where dr: "done_report env t c2 s4 = (r5, st, s5)"
            by (cases "done_report env t c2 s4") auto
          have "s' = s5"
            using assms se False em None np nt er r4 dr
            by (auto simp: onCompiled_body_def split: option.splits)
          with p4 done_report_grows[OF dr] show ?thesis
            by (auto intro: prefix_order.trans)
        qed
      qed
    qed
  qed
qed

lemma onCompiled_grows:
  "onCompiled env t n (r, s) = Some (r', s') \<Longrightarrow> prefix (trace s) (trace s')"
proof (induction n arbitrary: r s)
  case 0
  then show ?case by (cases r) auto
next
  case (Suc n)
  show ?case
  proof (cases r)
    case (Inl f)
    with Suc.prems show ?thesis by auto
  next
    case (Inr c)
    show ?thesis
    proof (cases "onCompiled_body env t c s")
      case (Finished r1 s1)
      with Suc.prems Inr have "s1 = s'" by simp
      with Finished show ?thesis using onCompiled_body_grows by blast
    next
      case (Again s1)
      obtain r2 s2 where c: "compile env s1 = (r2, s2)" by (cases "compile env s1")
      with Suc.prems Inr Again have "onCompiled env t n (r2, s2) = Some (r', s')" by simp
      then have "prefix (trace s2) (trace s')" by (rule Suc.IH)
      moreover have "prefix (trace s1) (trace s2)" using c by (rule compile_grows)
      moreover have "prefix (trace s) (trace s1)" using Again onCompiled_body_grows by blast
      ultimately show ?thesis by (blast intro: prefix_order.trans)
    qed
  qed
qed

lemma alloc_json_prefix:
  "prefix h (snd (alloc_json j h))"
  "prefix h (snd (alloc_jsons js h))"
  "prefix h (snd (alloc_fields fs h))"
proof (induction j h and js h and fs h rule: alloc_json_alloc_jsons_alloc_fields.induct)
qed (auto simp: alloc_def split: prod.splits intro: prefix_order.trans)

lemma alloc_json_prefixD: "alloc_json j h = (v, h') \<Longrightarrow> prefix h h'"
  using alloc_json_prefix(1)[of h j] by simp

lemma readRecords_frame:
  "readRecords env s = (r, s') \<Longrightarrow>
     self s' = (self s)\<lparr>records := records (self s')\<rparr> \<and> prefix (heap s) (heap s') \<and>
     prefix (trace s) (trace s')"
  unfolding readRecords_def
  by (auto split: prod.splits option.splits if_splits sum.splits simp: Let_def alloc_def
        dest: alloc_json_prefixD)

lemma hget_prefix: "prefix h h' \<Longrightarrow> a < length h \<Longrightarrow> hget h' a = hget h a"
  by (auto simp: prefix_def hget_def nth_append)

lemma finalCallback_frame:
  "finalCallback r s = (out, s') \<Longrightarrow>
     self s' = (self s)\<lparr>running := running (self s')\<rparr> \<and> heap s' = heap s \<and>
     trace s' = trace s"
  by (auto simp: finalCallback_def split: sum.splits failure.splits)


lemma run_eq:
  "run env fuel s =
     (if running (self s) then Some (Callback (Some ConcurrentCompilationError) None, s)
      else
        (case onCompiled env (fst (Date_now env (world s))) fuel
                (run_stages env (s\<lparr>self := (self s)\<lparr>running := True\<rparr>,
                                   world := snd (Date_now env (world s))\<rparr>)) of
           None \<Rightarrow> None
         | Some (r, s5) \<Rightarrow> Some (finalCallback r s5)))"
  unfolding run_def run_stages_def
  by (simp add: Let_def split: prod.splits option.splits)

lemma run_stages_grows:
  assumes "run_stages env s = (r, s')"
  shows "prefix (trace s @ [HookCall ''beforeRun'' (ArgCompiler (self s))]) (trace s')"
proof -
  obtain r2 a2 s2 where
    b: "hook_callAsync env ''beforeRun'' (ArgCompiler (self s)) s = (r2, a2, s2)"
    by (cases "hook_callAsync env ''beforeRun'' (ArgCompiler (self s)) s") auto
  note e2 = hook_callAsync_trace[OF b]
  show ?thesis
  proof (cases r2)
    case (Some err)
    with assms b e2 show ?thesis by (simp add: run_stages_def)
  next
    case None
    obtain r3 a3 s3 where
      c: "hook_callAsync env ''run'' (ArgCompiler (self s2)) s2 = (r3, a3, s3)"
      by (cases "hook_callAsync env ''run'' (ArgCompiler (self s2)) s2") auto
    note e3 = hook_callAsync_trace[OF c]
    show ?thesis
    proof (cases r3)
      case (Some err)
      with assms b c None e2 e3 show ?thesis by (simp add: run_stages_def)
    next
      case r3: None
      obtain r4 s4 where d: "readRecords env s3 = (r4, s4)" by (cases "readRecords env s3")
      note e4 = readRecords_frame[OF d]
      have pre: "prefix (trace s @ [HookCall ''beforeRun'' (ArgCompiler (self s))]) (trace s4)"
        using e2 e3 e4 by (auto simp: prefix_def)
      show ?thesis
      proof (cases r4)
        case (Some f)
        with assms b c d None r3 pre show ?thesis by (simp add: run_stages_def)
      next
        case r4: None
        with assms b c d None r3 have "compile env s4 = (r, s')" by (simp add: run_stages_def)
        then have "prefix (trace s4) (trace s')" by (rule compile_grows)
        with pre show ?thesis by (rule prefix_order.trans)
      qed
    qed
  qed
qed

lemma run_started:
  assumes "\<not> running (self s)" and "run env fuel s = Some (out, s')"
  shows "prefix (trace s @ [HookCall ''beforeRun'' (ArgCompiler ((self s)\<lparr>running := True\<rparr>))])
                (trace s')"
proof -
  define s1 where
    "s1 = s\<lparr>self := (self s)\<lparr>running := True\<rparr>, world := snd (Date_now env (world s))\<rparr>"
  obtain r4 s4 where st: "run_stages env s1 = (r4, s4)" by (cases "run_stages env s1")
  from assms obtain r5 s5 where
    oc: "onCompiled env (fst (Date_now env (world s))) fuel (r4, s4) = Some (r5, s5)" and
    fc: "finalCallback r5 s5 = (out, s')"
    by (auto simp: run_eq s1_def[symmetric] st split: option.splits)
  note f1 = run_stages_grows[OF st]
  note f2 = onCompiled_grows[OF oc]
  note f3 = finalCallback_frame[OF fc]
  have "prefix (trace s1 @ [HookCall ''beforeRun'' (ArgCompiler (self s1))]) (trace s')"
    using f1 f2 f3 by (auto intro: prefix_order.trans)
  then show ?thesis by (simp add: s1_def)
qed

lemma compile_trace:
  "prefix (trace s @ [HookCall ''normalModuleFactory'' (ArgFactory ''NormalModuleFactory''),
                      HookCall ''contextModuleFactory'' (ArgFactory ''ContextModuleFactory''),
                      HookCall ''beforeCompile'' ArgParams])
          (trace (snd (compile env s)))"
  unfolding compile_def
  by (auto split: prod.splits option.splits simp: newCompilationParams_trace
           dest!: hook_call_trace hook_callAsync_trace hook_callAsync_parallel_trace
                  newCompilation_trace)

lemma compile_trace_session:
  assumes "hook_callAsync env ''beforeCompile'' ArgParams (newCompilationParams env s) =
             (None, a1, s1)"
      and "hook_call env ''compile'' ArgParams s1 = (a2, s2)"
  shows "prefix (trace s @ [HookCall ''normalModuleFactory'' (ArgFactory ''NormalModuleFactory''),
                      HookCall ''contextModuleFactory'' (ArgFactory ''ContextModuleFactory''),
                      HookCall ''beforeCompile'' ArgParams,
                      HookCall ''compile'' ArgParams,
                      HookCall ''thisCompilation'' (ArgCompilation (createCompilation (self s2)))])
          (trace (snd (compile env s)))"
proof -
  note e1 = hook_callAsync_trace[OF assms(1)]
  note e2 = hook_call_trace[OF assms(2)]
  show ?thesis
    unfolding compile_def using e1 e2
    by (auto split: prod.splits option.splits simp: assms newCompilationParams_trace
           dest!: hook_callAsync_trace hook_callAsync_parallel_trace newCompilation_trace)
qed

section \<open>The concurrency guard and the running flag\<close>

text \<open>
  C3. Calling \<open>run\<close> while the compiler is running calls the callback with the
  concurrency-guard error at once, and the state afterwards is the state before: the
  two timestamp tables, the running flag and everything else are unchanged.
\<close>

theorem run_guard_rejects:
  "running (self s) \<Longrightarrow>
     run env fuel s = Some (Callback (Some ConcurrentCompilationError) None, s)"
  by (simp add: run_def)

theorem run_guard_rejects_witness:
  "running (self demo_busy) \<and>
   run demo_env 1 demo_busy = Some (Callback (Some ConcurrentCompilationError) None, demo_busy)"
proof -
  have h: "running (self demo_busy)" by code_simp
  show ?thesis by (rule conjI[OF h run_guard_rejects[OF h]])
qed



section \<open>The timestamp tables\<close>

text \<open>
  C1, as the spec states it, fails on the code. The compiler of \<open>demo_state\<close> has one
  entry in its table of file timestamps. A one-shot \<open>run\<close> ends with that entry still
  in the table (nothing was reset), while \<open>watch\<close> on the same state leaves the
  compiler with an empty table.
\<close>

theorem timestamps_counterexample:
  "file_table demo_state = Some (HMap [(''/proj/src/index.js'', 7)]) \<and>
   run demo_env 1 demo_state = Some (Callback None (Some demo_stats), demo_done) \<and>
   file_table demo_done = Some (HMap [(''/proj/src/index.js'', 7)]) \<and>
   file_table (snd (watch demo_state)) = Some (HMap [])"
  by code_simp

text \<open>
  C1, amended. It is \<open>watch\<close> that resets: on a compiler that is not running it installs
  two new, distinct, empty timestamp tables (and sets the running flag) before the
  Watching is built, without touching the old tables. \<open>run\<close> does not reset them: on a
  compiler that is not running it is \<open>finalCallback\<close> after \<open>onCompiled\<close> after the stage
  sequence \<open>run_stages\<close>, which starts with the call of the \<open>beforeRun\<close> hook, and the
  state \<open>s1\<close> in which that sequence starts differs from the state before \<open>run\<close> in the
  running flag and the clock only: the compiler handed to \<open>beforeRun\<close> refers to the
  tables it referred to, and they hold what they held. That call is the first thing a
  \<open>run\<close> that returns has done, and if it fails the \<open>run\<close> ends with its error in the
  state its taps left. What the taps and the session do to the tables afterwards is
  theirs: \<open>run\<close> itself has no assignment to them.
\<close>

theorem timestamps_run_watch:
  "\<not> running (self s) \<longrightarrow>
     (let s1 = s\<lparr>self := (self s)\<lparr>running := True\<rparr>, world := snd (Date_now env (world s))\<rparr>
      in run env fuel s =
           (case onCompiled env (fst (Date_now env (world s))) fuel (run_stages env s1) of
              None \<Rightarrow> None
            | Some (r, s5) \<Rightarrow> Some (finalCallback r s5)) \<and>
         fileTimestamps (self s1) = fileTimestamps (self s) \<and>
         contextTimestamps (self s1) = contextTimestamps (self s) \<and>
         heap s1 = heap s \<and>
         file_table s1 = file_table s \<and> context_table s1 = context_table s \<and>
         (\<forall>err a2 s2.
            hook_callAsync env ''beforeRun'' (ArgCompiler (self s1)) s1 = (Some err, a2, s2) \<longrightarrow>
            run env fuel s = Some (finalCallback (Inl (CbError err)) s2)) \<and>
         (\<forall>out s'. run env fuel s = Some (out, s') \<longrightarrow>
            prefix (trace s @ [HookCall ''beforeRun'' (ArgCompiler (self s1))]) (trace s'))) \<and>
     fst (watch s) = None \<and> running (self (snd (watch s))) \<and>
     file_table (snd (watch s)) = Some (HMap []) \<and>
     context_table (snd (watch s)) = Some (HMap []) \<and>
     fileTimestamps (self (snd (watch s))) \<noteq> contextTimestamps (self (snd (watch s))) \<and>
     length (heap s) \<le> fileTimestamps (self (snd (watch s))) \<and>
     length (heap s) \<le> contextTimestamps (self (snd (watch s))) \<and>
     prefix (heap s) (heap (snd (watch s)))"
proof
  assume nr: "\<not> running (self s)"
  define s1 where
    "s1 = s\<lparr>self := (self s)\<lparr>running := True\<rparr>, world := snd (Date_now env (world s))\<rparr>"
  have r: "run env fuel s =
           (case onCompiled env (fst (Date_now env (world s))) fuel (run_stages env s1) of
              None \<Rightarrow> None
            | Some (r, s5) \<Rightarrow> Some (finalCallback r s5))"
    using nr by (simp add: run_eq s1_def)
  have t: "fileTimestamps (self s1) = fileTimestamps (self s)"
    "contextTimestamps (self s1) = contextTimestamps (self s)" "heap s1 = heap s"
    "file_table s1 = file_table s" "context_table s1 = context_table s"
    by (simp_all add: s1_def file_table_def context_table_def)
  have b: "\<forall>err a2 s2.
            hook_callAsync env ''beforeRun'' (ArgCompiler (self s1)) s1 = (Some err, a2, s2) \<longrightarrow>
            run env fuel s = Some (finalCallback (Inl (CbError err)) s2)"
    using nr by (simp add: run_eq s1_def run_stages_def)
  have p: "\<forall>out s'. run env fuel s = Some (out, s') \<longrightarrow>
            prefix (trace s @ [HookCall ''beforeRun'' (ArgCompiler (self s1))]) (trace s')"
    using run_started[OF nr] by (simp add: s1_def)
  have w: "fst (watch s) = None \<and> running (self (snd (watch s))) \<and>
     file_table (snd (watch s)) = Some (HMap []) \<and>
     context_table (snd (watch s)) = Some (HMap []) \<and>
     fileTimestamps (self (snd (watch s))) \<noteq> contextTimestamps (self (snd (watch s))) \<and>
     length (heap s) \<le> fileTimestamps (self (snd (watch s))) \<and>
     length (heap s) \<le> contextTimestamps (self (snd (watch s))) \<and>
     prefix (heap s) (heap (snd (watch s)))"
    using nr
    by (auto simp: watch_def alloc_def file_table_def context_table_def hget_def nth_append)
  from r t b p w show "(let s1 = s\<lparr>self := (self s)\<lparr>running := True\<rparr>,
                                  world := snd (Date_now env (world s))\<rparr>
      in run env fuel s =
           (case onCompiled env (fst (Date_now env (world s))) fuel (run_stages env s1) of
              None \<Rightarrow> None
            | Some (r, s5) \<Rightarrow> Some (finalCallback r s5)) \<and>
         fileTimestamps (self s1) = fileTimestamps (self s) \<and>
         contextTimestamps (self s1) = contextTimestamps (self s) \<and>
         heap s1 = heap s \<and>
         file_table s1 = file_table s \<and> context_table s1 = context_table s \<and>
         (\<forall>err a2 s2.
            hook_callAsync env ''beforeRun'' (ArgCompiler (self s1)) s1 = (Some err, a2, s2) \<longrightarrow>
            run env fuel s = Some (finalCallback (Inl (CbError err)) s2)) \<and>
         (\<forall>out s'. run env fuel s = Some (out, s') \<longrightarrow>
            prefix (trace s @ [HookCall ''beforeRun'' (ArgCompiler (self s1))]) (trace s'))) \<and>
     fst (watch s) = None \<and> running (self (snd (watch s))) \<and>
     file_table (snd (watch s)) = Some (HMap []) \<and>
     context_table (snd (watch s)) = Some (HMap []) \<and>
     fileTimestamps (self (snd (watch s))) \<noteq> contextTimestamps (self (snd (watch s))) \<and>
     length (heap s) \<le> fileTimestamps (self (snd (watch s))) \<and>
     length (heap s) \<le> contextTimestamps (self (snd (watch s))) \<and>
     prefix (heap s) (heap (snd (watch s)))"
    unfolding Let_def s1_def by blast
qed

theorem timestamps_run_watch_witness:
  "\<not> running (self demo_state) \<and>
   file_table demo_state = Some (HMap [(''/proj/src/index.js'', 7)]) \<and>
   file_table (demo_state\<lparr>self := (self demo_state)\<lparr>running := True\<rparr>,
                          world := snd (Date_now demo_env (world demo_state))\<rparr>) =
     Some (HMap [(''/proj/src/index.js'', 7)]) \<and>
   run demo_env 1 demo_state = Some (Callback None (Some demo_stats), demo_done) \<and>
   prefix ([HookCall ''beforeRun'' (ArgCompiler ((self demo_state)\<lparr>running := True\<rparr>))])
          (trace demo_done) \<and>
   fst (watch demo_state) = None \<and>
   file_table (snd (watch demo_state)) = Some (HMap []) \<and>
   context_table (snd (watch demo_state)) = Some (HMap [])"
proof -
  have h1: "\<not> running (self demo_state)" by code_simp
  have h2: "file_table demo_state = Some (HMap [(''/proj/src/index.js'', 7)])" by code_simp
  have h3: "run demo_env 1 demo_state = Some (Callback None (Some demo_stats), demo_done)"
    by code_simp
  have h4: "trace demo_state = []" by code_simp
  from timestamps_run_watch[of demo_state demo_env 1] h1 h2 h3 h4 show ?thesis
    by (simp add: Let_def)
qed

section \<open>The veto of \<open>shouldEmit\<close>\<close>

text \<open>
  C2, as the spec states it, fails on the code. The compiler of \<open>demo_veto\<close> has an output
  path for its records, and a tap of its \<open>shouldEmit\<close> hook answers \<open>false\<close>. The build
  succeeds, and from \<open>shouldEmit\<close> it goes to the \<open>done\<close> hook at once: nothing is written,
  the records file included, whereas the build of \<open>demo_state\<close> (no veto) writes an
  asset and then the records.
\<close>

theorem veto_counterexample:
  "recordsOutputPath (self demo_veto) = Some ''/out/records.json'' \<and>
   run demo_env 1 demo_veto = Some (Callback None (Some demo_veto_stats), demo_veto_done) \<and>
   map event_label (trace demo_veto_done) =
     [''beforeRun'', ''run'', ''normalModuleFactory'', ''contextModuleFactory'',
      ''beforeCompile'', ''compile'', ''thisCompilation'', ''compilation'', ''make'',
      ''afterCompile'', ''shouldEmit'', ''done''] \<and>
   filter is_write (trace demo_veto_done) = [] \<and>
   map event_label (filter is_write (trace demo_done)) =
     [''writeFile /dist/main.js'', ''writeFile /out/records.json'']"
  by code_simp

text \<open>
  C2, amended. When the \<open>shouldEmit\<close> hook answers \<open>false\<close> for a session, \<open>onCompiled\<close>
  returns whatever the count of further sessions; between the \<open>shouldEmit\<close> call and the
  \<open>done\<close> call it does nothing but read the clock (no asset is written, no record is
  persisted: the \<open>done\<close> hook is called in the state the taps of \<open>shouldEmit\<close> left, and
  the state \<open>onCompiled\<close> ends in is the one the taps of \<open>done\<close> left); the \<open>done\<close> hook
  gets a summary of that session with both timestamps set; and the build succeeds with
  that summary unless a tap of \<open>done\<close> fails, in which case that error reaches the final
  callback.
\<close>

theorem shouldEmit_veto:
  assumes "hook_call_bail env ''shouldEmit'' (ArgCompilation c) s = (JBool False, a, s1)"
  shows "case onCompiled env startT (Suc n) (Inr c, s) of
           None \<Rightarrow> False
         | Some (r, s2) \<Rightarrow>
             (let st = \<lparr>compilation = the_compilation c a, startTime = Some startT,
                        endTime = Some (fst (Date_now env (world s1)))\<rparr>;
                  dh = hook_callAsync env ''done'' (ArgStats st)
                         (s1\<lparr>world := snd (Date_now env (world s1))\<rparr>);
                  d = fst dh
              in trace s1 = trace s @ [HookCall ''shouldEmit'' (ArgCompilation c)] \<and>
                 s2 = snd (snd dh) \<and>
                 trace s2 = trace s @ [HookCall ''shouldEmit'' (ArgCompilation c),
                                       HookCall ''done'' (ArgStats st)] \<and>
                 r = (case d of None \<Rightarrow> Inr st | Some err \<Rightarrow> Inl (CbError err)) \<and>
                 fst (finalCallback r s2) =
                   (case d of None \<Rightarrow> Callback None (Some st)
                            | Some err \<Rightarrow> Callback (Some err) None))"
proof -
  note e1 = hook_call_bail_trace[OF assms]
  obtain t w1 where dn: "Date_now env (world s1) = (t, w1)" by (cases "Date_now env (world s1)")
  define st where "st = \<lparr>compilation = the_compilation c a, startTime = Some startT,
                        endTime = Some t\<rparr>"
  obtain d a2 s2 where h: "hook_callAsync env ''done'' (ArgStats st) (s1\<lparr>world := w1\<rparr>) = (d, a2, s2)"
    by (cases "hook_callAsync env ''done'' (ArgStats st) (s1\<lparr>world := w1\<rparr>)") auto
  note e2 = hook_callAsync_trace[OF h]
  have dr: "done_report env startT (the_compilation c a) s1 = (d, st, s2)"
    using dn h by (simp add: done_report_def new_Stats_def st_def)
  have body: "onCompiled_body env startT c s =
               Finished (case d of None \<Rightarrow> Inr st | Some err \<Rightarrow> Inl (CbError err)) s2"
    using assms dr by (simp add: onCompiled_body_def split: option.splits)
  show ?thesis
    using body dn h e1 e2
    by (simp add: st_def[symmetric] finalCallback_def split: option.splits)
qed

theorem shouldEmit_veto_witness:
  "hook_call_bail demo_env ''shouldEmit'' (ArgCompilation demo_session) demo_veto =
     (JBool False, ArgCompilation demo_session,
      demo_veto\<lparr>trace := [HookCall ''shouldEmit'' (ArgCompilation demo_session)]\<rparr>) \<and>
   (case onCompiled demo_env 100 (Suc 0) (Inr demo_session, demo_veto) of
      None \<Rightarrow> False
    | Some (r, s2) \<Rightarrow>
        trace s2 = [HookCall ''shouldEmit'' (ArgCompilation demo_session),
                    HookCall ''done'' (ArgStats \<lparr>compilation = demo_session,
                       startTime = Some 100, endTime = Some 100\<rparr>)] \<and>
        r = Inr \<lparr>compilation = demo_session, startTime = Some 100, endTime = Some 100\<rparr>)"
proof -
  have h: "hook_call_bail demo_env ''shouldEmit'' (ArgCompilation demo_session) demo_veto =
     (JBool False, ArgCompilation demo_session,
      demo_veto\<lparr>trace := [HookCall ''shouldEmit'' (ArgCompilation demo_session)]\<rparr>)"
    by code_simp
  have t: "trace demo_veto = []" by code_simp
  have d: "fst (hook_callAsync demo_env ''done''
      (ArgStats \<lparr>compilation = demo_session, startTime = Some 100, endTime = Some 100\<rparr>)
      (demo_veto\<lparr>trace := [HookCall ''shouldEmit'' (ArgCompilation demo_session)],
         world := \<lparr>clock = 101, passes = 0\<rparr>\<rparr>)) = None" by code_simp
  have w: "world demo_veto = \<lparr>clock = 100, passes = 0\<rparr>" by code_simp
  have dn: "Date_now demo_env \<lparr>clock = 100, passes = 0\<rparr> = (100, \<lparr>clock = 101, passes = 0\<rparr>)"
    by code_simp
  from shouldEmit_veto[OF h, of 100 0] h show ?thesis
    by (auto simp: the_compilation_def t d w dn Let_def split: option.splits prod.splits)
qed

section \<open>The additional pass\<close>

text \<open>
  C5. When, after the assets were emitted without failure, the session's
  \<open>needAdditionalPass\<close> hook returns a truthy value, \<open>onCompiled\<close> calls the \<open>done\<close> hook
  with a summary of that session with \<open>needAdditionalPass\<close> set to true; then, unless
  that hook failed, the \<open>additionalPass\<close> hook; then, unless that one failed, it
  continues as \<open>onCompiled\<close> on the result of a new \<open>compile\<close> (a failure of either hook
  goes to the final callback, as the failure of any stage does). Between the emission and
  the new compile stage the trace holds these two hook calls and nothing else: no record
  is persisted, and the new compile stage starts in the state the taps of
  \<open>additionalPass\<close> left. The new compile stage starts with its factory hooks and
  \<open>beforeCompile\<close>, and hands to \<open>thisCompilation\<close> a session made by
  \<open>createCompilation\<close> from the compiler as it is after the \<open>compile\<close> hook: a session
  with no asset and the flag cleared.
\<close>

theorem additional_pass:
  assumes se: "hook_call_bail env ''shouldEmit'' (ArgCompilation c) s = (v, a, s1)"
      and nv: "v \<noteq> JBool False"
      and em: "emitAssets env (the_compilation c a) s1 = (None, c2, s2)"
      and np: "needAdditionalPass_call env c2 (world s2) = (v2, w3)"
      and tr: "truthy v2"
  shows "let st = \<lparr>compilation = c2\<lparr>needAdditionalPass := True\<rparr>, startTime = Some startT,
                    endTime = Some (fst (Date_now env w3))\<rparr>;
             d = hook_callAsync env ''done'' (ArgStats st) (s2\<lparr>world := snd (Date_now env w3)\<rparr>);
             s4 = snd (snd d);
             ap = hook_callAsync env ''additionalPass'' ArgNone s4;
             s5 = snd (snd ap);
             bc = hook_callAsync env ''beforeCompile'' ArgParams (newCompilationParams env s5);
             s7 = snd (hook_call env ''compile'' ArgParams (snd (snd bc)))
         in trace s4 = trace s2 @ [HookCall ''done'' (ArgStats st)] \<and>
            (case fst d of
               Some err \<Rightarrow> onCompiled env startT (Suc n) (Inr c, s) = Some (Inl (CbError err), s4)
             | None \<Rightarrow>
                 trace s5 = trace s2 @ [HookCall ''done'' (ArgStats st),
                                        HookCall ''additionalPass'' ArgNone] \<and>
                 (case fst ap of
                    Some err \<Rightarrow>
                      onCompiled env startT (Suc n) (Inr c, s) = Some (Inl (CbError err), s5)
                  | None \<Rightarrow>
                      onCompiled env startT (Suc n) (Inr c, s) =
                        onCompiled env startT n (compile env s5) \<and>
                      prefix (trace s5 @
                                [HookCall ''normalModuleFactory'' (ArgFactory ''NormalModuleFactory''),
                                 HookCall ''contextModuleFactory'' (ArgFactory ''ContextModuleFactory''),
                                 HookCall ''beforeCompile'' ArgParams])
                             (trace (snd (compile env s5))) \<and>
                      (fst bc = None \<longrightarrow>
                         prefix (trace s5 @
                                [HookCall ''normalModuleFactory'' (ArgFactory ''NormalModuleFactory''),
                                 HookCall ''contextModuleFactory'' (ArgFactory ''ContextModuleFactory''),
                                 HookCall ''beforeCompile'' ArgParams,
                                 HookCall ''compile'' ArgParams,
                                 HookCall ''thisCompilation''
                                   (ArgCompilation (createCompilation (self s7)))])
                             (trace (snd (compile env s5)))) \<and>
                      assets (createCompilation (self s7)) = [] \<and>
                      \<not> needAdditionalPass (createCompilation (self s7))))"
proof -
  define st where "st = \<lparr>compilation = c2\<lparr>needAdditionalPass := True\<rparr>, startTime = Some startT,
                    endTime = Some (fst (Date_now env w3))\<rparr>"
  obtain r4 a4 s4 where
    dn: "hook_callAsync env ''done'' (ArgStats st) (s2\<lparr>world := snd (Date_now env w3)\<rparr>) =
           (r4, a4, s4)"
    by (cases "hook_callAsync env ''done'' (ArgStats st) (s2\<lparr>world := snd (Date_now env w3)\<rparr>)")
       auto
  obtain r5 a5 s5 where ap: "hook_callAsync env ''additionalPass'' ArgNone s4 = (r5, a5, s5)"
    by (cases "hook_callAsync env ''additionalPass'' ArgNone s4") auto
  obtain r6 a6 s6 where
    bc: "hook_callAsync env ''beforeCompile'' ArgParams (newCompilationParams env s5) =
           (r6, a6, s6)"
    by (cases "hook_callAsync env ''beforeCompile'' ArgParams (newCompilationParams env s5)")
       auto
  obtain a7 s7 where cp: "hook_call env ''compile'' ArgParams s6 = (a7, s7)"
    by (cases "hook_call env ''compile'' ArgParams s6")
  have dr: "done_report env startT (c2\<lparr>needAdditionalPass := True\<rparr>) (s2\<lparr>world := w3\<rparr>) =
              (r4, st, s4)"
    using dn by (cases "Date_now env w3") (simp add: done_report_def new_Stats_def st_def)
  note e4 = hook_callAsync_trace[OF dn]
  note e5 = hook_callAsync_trace[OF ap]
  have t4: "trace s4 = trace s2 @ [HookCall ''done'' (ArgStats st)]" using e4 by simp
  have t5: "trace s5 = trace s2 @ [HookCall ''done'' (ArgStats st),
                                   HookCall ''additionalPass'' ArgNone]"
    using e4 e5 by simp
  have body: "onCompiled_body env startT c s =
      (case r4 of Some err \<Rightarrow> Finished (Inl (CbError err)) s4
       | None \<Rightarrow> (case r5 of Some err \<Rightarrow> Finished (Inl (CbError err)) s5 | None \<Rightarrow> Again s5))"
    using se nv em np tr dr ap by (simp add: onCompiled_body_def split: option.splits)
  have cs: "r6 = None
            \<longrightarrow> prefix (trace s5 @
                   [HookCall ''normalModuleFactory'' (ArgFactory ''NormalModuleFactory''),
                    HookCall ''contextModuleFactory'' (ArgFactory ''ContextModuleFactory''),
                    HookCall ''beforeCompile'' ArgParams,
                    HookCall ''compile'' ArgParams,
                    HookCall ''thisCompilation'' (ArgCompilation (createCompilation (self s7)))])
                (trace (snd (compile env s5)))"
    using compile_trace_session[of env s5 a6 s6 a7 s7] bc cp by simp
  have nc: "assets (createCompilation (self s7)) = []"
    "\<not> needAdditionalPass (createCompilation (self s7))"
    by (simp_all add: createCompilation_def)
  show ?thesis
    using body t4 t5 cs nc compile_trace[of s5 env]
    by (simp add: Let_def st_def[symmetric] dn ap bc cp split: option.splits)
qed

theorem additional_pass_witness:
  "hook_call_bail demo_env ''shouldEmit'' (ArgCompilation demo_c0) demo_s0 =
     (JUndefined, ArgCompilation demo_c0, demo_s1) \<and>
   emitAssets demo_env demo_c0 demo_s1 = (None, demo_c2, demo_s2) \<and>
   needAdditionalPass_call demo_env demo_c2 (world demo_s2) =
     (JBool True, \<lparr>clock = 100, passes = 0\<rparr>) \<and>
   hook_callAsync demo_env ''done'' (ArgStats demo_st) (demo_s2\<lparr>world := \<lparr>clock = 101, passes = 0\<rparr>\<rparr>) =
     (None, ArgStats demo_st, demo_s4) \<and>
   hook_callAsync demo_env ''additionalPass'' ArgNone demo_s4 = (None, ArgNone, demo_s5) \<and>
   onCompiled demo_env 100 (Suc 1) (Inr demo_c0, demo_s0) =
     onCompiled demo_env 100 1 (compile demo_env demo_s5) \<and>
   trace demo_s5 = trace demo_s2 @ [HookCall ''done'' (ArgStats demo_st),
                                    HookCall ''additionalPass'' ArgNone]"
proof -
  have se: "hook_call_bail demo_env ''shouldEmit'' (ArgCompilation demo_c0) demo_s0 =
     (JUndefined, ArgCompilation demo_c0, demo_s1)" by code_simp
  have nv: "JUndefined \<noteq> JBool False" by simp
  have em: "emitAssets demo_env (the_compilation demo_c0 (ArgCompilation demo_c0)) demo_s1 =
     (None, demo_c2, demo_s2)" by code_simp
  have np: "needAdditionalPass_call demo_env demo_c2 (world demo_s2) =
     (JBool True, \<lparr>clock = 100, passes = 0\<rparr>)" by code_simp
  have tr: "truthy (JBool True)" by simp
  have st: "\<lparr>compilation = demo_c2\<lparr>needAdditionalPass := True\<rparr>, startTime = Some 100,
             endTime = Some (fst (Date_now demo_env \<lparr>clock = 100, passes = 0\<rparr>))\<rparr> = demo_st"
    by code_simp
  have w: "snd (Date_now demo_env \<lparr>clock = 100, passes = 0\<rparr>) = \<lparr>clock = 101, passes = 0\<rparr>"
    by code_simp
  have dn: "hook_callAsync demo_env ''done'' (ArgStats demo_st)
              (demo_s2\<lparr>world := \<lparr>clock = 101, passes = 0\<rparr>\<rparr>) =
            (None, ArgStats demo_st, demo_s4)" by code_simp
  have ap: "hook_callAsync demo_env ''additionalPass'' ArgNone demo_s4 = (None, ArgNone, demo_s5)"
    by code_simp
  from additional_pass[OF se nv em np tr, of 100 1] se em np dn ap
  show ?thesis by (simp add: Let_def st w the_compilation_def)
qed

section \<open>Reading the records\<close>

text \<open>
  C7, as the spec states it, fails on the code. The compiler of \<open>demo_missing\<close> has
  spawned a child, so that its record store has an entry, and has an input path at which
  there is no file. \<open>readRecords\<close> reports no error, and the store still has its entry:
  it is not an empty store.
\<close>

theorem readRecords_missing_counterexample:
  "recordsInputPath (self demo_missing) = Some ''/in/none.json'' \<and>
   fst (fs_stat demo_env ''/in/none.json'' (world demo_missing)) = Some (Error ''ENOENT'') \<and>
   fst (readRecords demo_env demo_missing) = None \<and>
   records_cell demo_missing = Some (HObj [(''manifest'', JRef 73)]) \<and>
   records_cell (snd (readRecords demo_env demo_missing)) = Some (HObj [(''manifest'', JRef 73)])"
  by code_simp

text \<open>
  C7, amended. With no input path (\<open>null\<close> or the empty string) \<open>readRecords\<close> reports no
  error and replaces the records by a new empty store. With an input path whose \<open>stat\<close>
  fails it reports no error either, and leaves the records as they are: they are
  empty exactly if they were empty before, as they are on a compiler that was just
  constructed.
\<close>

theorem readRecords_no_file:
  "(recordsInputPath (self s) = None \<or> recordsInputPath (self s) = Some [] \<longrightarrow>
      readRecords env s =
        (None, s\<lparr>self := (self s)\<lparr>records := JRef (length (heap s))\<rparr>,
                 heap := heap s @ [HObj []]\<rparr>) \<and>
      records_cell (snd (readRecords env s)) = Some (HObj [])) \<and>
   (recordsInputPath (self s) = Some p \<and> p \<noteq> [] \<and> inputFileSystem (self s) \<noteq> None \<and>
    fs_stat env p (world s) = (Some err, w1) \<longrightarrow>
      readRecords env s = (None, s\<lparr>world := w1, trace := trace s @ [FsStat p]\<rparr>) \<and>
      records_cell (snd (readRecords env s)) = records_cell s)"
proof (intro conjI impI)
  assume a: "recordsInputPath (self s) = None \<or> recordsInputPath (self s) = Some []"
  then show e: "readRecords env s =
        (None, s\<lparr>self := (self s)\<lparr>records := JRef (length (heap s))\<rparr>,
                 heap := heap s @ [HObj []]\<rparr>)"
    by (auto simp: readRecords_def alloc_def)
  show "records_cell (snd (readRecords env s)) = Some (HObj [])"
    by (simp add: e records_cell_def hget_def)
next
  assume a: "recordsInputPath (self s) = Some p \<and> p \<noteq> [] \<and> inputFileSystem (self s) \<noteq> None \<and>
    fs_stat env p (world s) = (Some err, w1)"
  then show e: "readRecords env s = (None, s\<lparr>world := w1, trace := trace s @ [FsStat p]\<rparr>)"
    by (auto simp: readRecords_def)
  show "records_cell (snd (readRecords env s)) = records_cell s"
    by (simp add: e records_cell_def split: jsval.splits)
qed

theorem readRecords_no_file_witness:
  "recordsInputPath (self demo_state) = None \<and>
   records_cell (snd (readRecords demo_env demo_state)) = Some (HObj []) \<and>
   recordsInputPath (self demo_missing) = Some ''/in/none.json'' \<and>
   inputFileSystem (self demo_missing) \<noteq> None \<and>
   fs_stat demo_env ''/in/none.json'' (world demo_missing) =
     (Some (Error ''ENOENT''), world demo_missing) \<and>
   readRecords demo_env demo_missing =
     (None, demo_missing\<lparr>world := world demo_missing,
                         trace := trace demo_missing @ [FsStat ''/in/none.json'']\<rparr>) \<and>
   records_cell (snd (readRecords demo_env demo_missing)) = records_cell demo_missing"
proof -
  have h1: "recordsInputPath (self demo_state) = None" by code_simp
  have h2: "recordsInputPath (self demo_missing) = Some ''/in/none.json''" by code_simp
  have h3: "inputFileSystem (self demo_missing) \<noteq> None" by code_simp
  have h4: "fs_stat demo_env ''/in/none.json'' (world demo_missing) =
     (Some (Error ''ENOENT''), world demo_missing)" by code_simp
  have h5: "''/in/none.json'' \<noteq> []" by simp
  from readRecords_no_file[where s = demo_state and env = demo_env] h1
  have a: "records_cell (snd (readRecords demo_env demo_state)) = Some (HObj [])" by blast
  from readRecords_no_file[where s = demo_missing and p = "''/in/none.json''" and env = demo_env
      and err = "Error ''ENOENT''" and ?w1.0 = "world demo_missing"] h2 h3 h4 h5
  have b: "readRecords demo_env demo_missing =
     (None, demo_missing\<lparr>world := world demo_missing,
                         trace := trace demo_missing @ [FsStat ''/in/none.json'']\<rparr>) \<and>
   records_cell (snd (readRecords demo_env demo_missing)) = records_cell demo_missing"
    by blast
  from a b h1 h2 h3 h4 show ?thesis by blast
qed

text \<open>
  C8. For a records file that exists and is read but does not parse, \<open>readRecords\<close> fails
  with the parser's message behind the marker \<open>Cannot parse records: \<close> and changes
  neither the compiler nor the store; and a \<open>run\<close> whose \<open>beforeRun\<close> and \<open>run\<close> hooks
  succeeded ends there, for any count of sessions: the callback gets that error, the
  state is the one the taps of the \<open>run\<close> hook left but for the running flag, and
  after the two hooks the trace holds the two reads of the file and no hook of the
  compile stage.
\<close>

theorem records_parse_failure:
  assumes nr: "\<not> running (self s)"
      and br: "hook_callAsync env ''beforeRun'' (ArgCompiler ((self s)\<lparr>running := True\<rparr>))
                 (s\<lparr>self := (self s)\<lparr>running := True\<rparr>, world := snd (Date_now env (world s))\<rparr>) =
               (None, a2, s2)"
      and rn: "hook_callAsync env ''run'' (ArgCompiler (self s2)) s2 = (None, a3, s3)"
      and pa: "recordsInputPath (self s3) = Some p" "p \<noteq> []"
      and fs: "inputFileSystem (self s3) \<noteq> None"
      and sa: "fs_stat env p (world s3) = (None, w4)"
      and rf: "fs_readFile env p w4 = (Inr content, w5)"
      and pj: "parseJson env (Buffer_toString env content) = Inl msg"
  shows "readRecords env s3 =
           (Some (CbError (Error (''Cannot parse records: '' @ msg))),
            s3\<lparr>world := w5, trace := trace s3 @ [FsStat p, FsReadFile p]\<rparr>) \<and>
         run env fuel s =
           Some (Callback (Some (Error (''Cannot parse records: '' @ msg))) None,
                 s3\<lparr>self := (self s3)\<lparr>running := False\<rparr>, world := w5,
                    trace := trace s @
                      [HookCall ''beforeRun'' (ArgCompiler ((self s)\<lparr>running := True\<rparr>)),
                       HookCall ''run'' (ArgCompiler (self s2)),
                       FsStat p, FsReadFile p]\<rparr>)"
proof -
  note e2 = hook_callAsync_trace[OF br]
  note e3 = hook_callAsync_trace[OF rn]
  have t3: "trace s3 = trace s @ [HookCall ''beforeRun'' (ArgCompiler ((self s)\<lparr>running := True\<rparr>)),
                           HookCall ''run'' (ArgCompiler (self s2))]"
    using e2 e3 by simp
  have rr: "readRecords env s3 =
           (Some (CbError (Error (''Cannot parse records: '' @ msg))),
            s3\<lparr>world := w5, trace := trace s3 @ [FsStat p, FsReadFile p]\<rparr>)"
    using pa fs sa rf pj by (simp add: readRecords_def)
  have st: "run_stages env (s\<lparr>self := (self s)\<lparr>running := True\<rparr>,
                              world := snd (Date_now env (world s))\<rparr>) =
            (Inl (CbError (Error (''Cannot parse records: '' @ msg))),
             s3\<lparr>world := w5, trace := trace s3 @ [FsStat p, FsReadFile p]\<rparr>)"
    using br rn rr by (simp add: run_stages_def)
  have "run env fuel s =
           Some (Callback (Some (Error (''Cannot parse records: '' @ msg))) None,
                 s3\<lparr>world := w5, trace := trace s3 @ [FsStat p, FsReadFile p],
                    self := (self s3)\<lparr>running := False\<rparr>\<rparr>)"
    using nr st by (simp add: run_eq finalCallback_def)
  with rr t3 show ?thesis by simp
qed

theorem records_parse_failure_witness:
  "\<not> running (self demo_broken) \<and>
   recordsInputPath (self demo_broken3) = Some ''/in/broken.json'' \<and>
   parseJson demo_env (Buffer_toString demo_env [123]) = Inl ''Unexpected end of JSON input'' \<and>
   run demo_env 0 demo_broken =
     Some (Callback (Some (Error ''Cannot parse records: Unexpected end of JSON input'')) None,
           demo_broken\<lparr>world := \<lparr>clock = 101, passes = 0\<rparr>,
             trace :=
               [HookCall ''beforeRun'' (ArgCompiler ((self demo_broken)\<lparr>running := True\<rparr>)),
                HookCall ''run'' (ArgCompiler ((self demo_broken)\<lparr>running := True\<rparr>)),
                FsStat ''/in/broken.json'', FsReadFile ''/in/broken.json'']\<rparr>)"
proof -
  have nr: "\<not> running (self demo_broken)" by code_simp
  have br: "hook_callAsync demo_env ''beforeRun'' (ArgCompiler ((self demo_broken)\<lparr>running := True\<rparr>))
              (demo_broken\<lparr>self := (self demo_broken)\<lparr>running := True\<rparr>,
                 world := snd (Date_now demo_env (world demo_broken))\<rparr>) =
            (None, ArgCompiler ((self demo_broken)\<lparr>running := True\<rparr>), demo_broken2)"
    by code_simp
  have rn: "hook_callAsync demo_env ''run'' (ArgCompiler (self demo_broken2)) demo_broken2 =
            (None, ArgCompiler (self demo_broken2), demo_broken3)" by code_simp
  have pa: "recordsInputPath (self demo_broken3) = Some ''/in/broken.json''" by code_simp
  have pn: "''/in/broken.json'' \<noteq> []" by simp
  have fs: "inputFileSystem (self demo_broken3) \<noteq> None" by code_simp
  have sa: "fs_stat demo_env ''/in/broken.json'' (world demo_broken3) =
            (None, \<lparr>clock = 101, passes = 0\<rparr>)" by code_simp
  have rf: "fs_readFile demo_env ''/in/broken.json'' \<lparr>clock = 101, passes = 0\<rparr> =
            (Inr [123], \<lparr>clock = 101, passes = 0\<rparr>)" by code_simp
  have pj: "parseJson demo_env (Buffer_toString demo_env [123]) =
            Inl ''Unexpected end of JSON input''" by code_simp
  have t: "trace demo_broken = []" by code_simp
  have e: "demo_broken3\<lparr>self := (self demo_broken3)\<lparr>running := False\<rparr>,
              world := \<lparr>clock = 101, passes = 0\<rparr>,
              trace := [HookCall ''beforeRun'' (ArgCompiler ((self demo_broken)\<lparr>running := True\<rparr>)),
                        HookCall ''run'' (ArgCompiler (self demo_broken2)),
                        FsStat ''/in/broken.json'', FsReadFile ''/in/broken.json'']\<rparr> =
           demo_broken\<lparr>world := \<lparr>clock = 101, passes = 0\<rparr>,
             trace :=
               [HookCall ''beforeRun'' (ArgCompiler ((self demo_broken)\<lparr>running := True\<rparr>)),
                HookCall ''run'' (ArgCompiler ((self demo_broken)\<lparr>running := True\<rparr>)),
                FsStat ''/in/broken.json'', FsReadFile ''/in/broken.json'']\<rparr>"
    by code_simp
  from records_parse_failure[OF nr br rn pa pn fs sa rf pj, of 0] nr pa pj t e
  show ?thesis by simp
qed

section \<open>Emitting one asset\<close>

text \<open>
  C6, as the spec states it, fails on the code. The asset \<open>js/app.js\<close> already exists at
  its target path \<open>/ro/js/app.js\<close>, but the directory of an asset is created before the
  comparison is made, and here that fails: the callback gets the error, and the emitted
  flag is not set to false but left undefined.
\<close>

theorem emit_file_counterexample:
  "targetFile_of ''js/app.js'' = ''js/app.js'' \<and>
   fs_join demo_env ''/ro'' ''js/app.js'' = ''/ro/js/app.js'' \<and>
   existsAt demo_ro_asset = Some ''/ro/js/app.js'' \<and>
   emit_file demo_env ''/ro'' (''js/app.js'', demo_ro_asset) \<lparr>clock = 0, passes = 0\<rparr> =
     (Some (Error ''EACCES''), demo_ro_asset, \<lparr>clock = 0, passes = 0\<rparr>, [FsMkdirp ''/ro/js'']) \<and>
   emitted demo_ro_asset = None"
  by code_simp

text \<open>
  C6, amended. For every asset, the target path is the output directory joined with the
  name cut at its first question mark. If that name contains a separator, its directory is
  created first, and a failure of that is the result: nothing is written and the asset
  is left as it is. Otherwise, if \<open>existsAt\<close> equals the target path, nothing is written
  and \<open>emitted\<close> is set to false; if not, \<open>existsAt\<close> is set to the target path,
  \<open>emitted\<close> is set to true, and the content, turned into a buffer if it is text, is
  written to the target path, the result of the write being the result. The emission
  treats every asset of the session in this way and keeps its name.
\<close>

theorem emit_file_asset:
  "(let targetFile = targetFile_of file;
        targetPath = fs_join env outPath targetFile;
        d = fs_join env outPath (path_dirname env targetFile);
        mk = (if has_separator targetFile then fst (fs_mkdirp env d w) else None);
        w1 = (if has_separator targetFile then snd (fs_mkdirp env d w) else w);
        pre = (if has_separator targetFile then [FsMkdirp d] else []);
        content = Buffer (case source src of Buffer b \<Rightarrow> b | Text t \<Rightarrow> Buffer_from env t)
    in emit_file env outPath (file, src) w =
         (if mk \<noteq> None then (mk, src, w1, pre)
          else if existsAt src = Some targetPath then
            (None, src\<lparr>emitted := Some False\<rparr>, w1, pre)
          else
            (fst (fs_writeFile env targetPath content w1),
             src\<lparr>existsAt := Some targetPath, emitted := Some True\<rparr>,
             snd (fs_writeFile env targetPath content w1),
             pre @ [FsWriteFile targetPath content]))) \<and>
   list_all2 (\<lambda>fa fa'. fst fa' = fst fa \<and>
                (\<exists>w'. snd fa' = fst (snd (emit_file env outPath fa w'))))
     fas (fst (snd (emit_files env outPath fas w0)))"
proof
  show "let targetFile = targetFile_of file;
        targetPath = fs_join env outPath targetFile;
        d = fs_join env outPath (path_dirname env targetFile);
        mk = (if has_separator targetFile then fst (fs_mkdirp env d w) else None);
        w1 = (if has_separator targetFile then snd (fs_mkdirp env d w) else w);
        pre = (if has_separator targetFile then [FsMkdirp d] else []);
        content = Buffer (case source src of Buffer b \<Rightarrow> b | Text t \<Rightarrow> Buffer_from env t)
    in emit_file env outPath (file, src) w =
         (if mk \<noteq> None then (mk, src, w1, pre)
          else if existsAt src = Some targetPath then
            (None, src\<lparr>emitted := Some False\<rparr>, w1, pre)
          else
            (fst (fs_writeFile env targetPath content w1),
             src\<lparr>existsAt := Some targetPath, emitted := Some True\<rparr>,
             snd (fs_writeFile env targetPath content w1),
             pre @ [FsWriteFile targetPath content]))"
    by (auto simp: emit_file_def writeOut_def Let_def
             split: prod.splits option.splits content.splits)
  show "list_all2 (\<lambda>fa fa'. fst fa' = fst fa \<and>
                (\<exists>w'. snd fa' = fst (snd (emit_file env outPath fa w'))))
     fas (fst (snd (emit_files env outPath fas w0)))"
  proof (induction fas arbitrary: w0)
    case Nil
    show ?case by simp
  next
    case (Cons fa fas)
    obtain r a w1 evs where e: "emit_file env outPath fa w0 = (r, a, w1, evs)"
      by (cases "emit_file env outPath fa w0") auto
    obtain r' as w2 evs' where f: "emit_files env outPath fas w1 = (r', as, w2, evs')"
      by (cases "emit_files env outPath fas w1") auto
    have "a = fst (snd (emit_file env outPath fa w0))" using e by simp
    then have "\<exists>w'. a = fst (snd (emit_file env outPath fa w'))" by blast
    with Cons.IH[of w1] e f show ?case by simp
  qed
qed

theorem emit_file_asset_witness:
  "emit_file demo_env ''/dist'' (''main.js?v=1'', demo_text_asset) \<lparr>clock = 0, passes = 0\<rparr> =
     (None, demo_text_asset\<lparr>existsAt := Some ''/dist/main.js'', emitted := Some True\<rparr>,
      \<lparr>clock = 0, passes = 0\<rparr>, [FsWriteFile ''/dist/main.js'' (Buffer [99, 111, 100, 101])])"
proof -
  have a: "targetFile_of ''main.js?v=1'' = ''main.js''" by code_simp
  have b: "\<not> has_separator ''main.js''" by code_simp
  have c: "fs_join demo_env ''/dist'' ''main.js'' = ''/dist/main.js''" by code_simp
  have d: "existsAt demo_text_asset \<noteq> Some ''/dist/main.js''" by code_simp
  have e: "source demo_text_asset = Text ''code''" by code_simp
  have f: "Buffer_from demo_env ''code'' = [99, 111, 100, 101]" by code_simp
  have g: "fs_writeFile demo_env ''/dist/main.js'' (Buffer [99, 111, 100, 101])
             \<lparr>clock = 0, passes = 0\<rparr> = (None, \<lparr>clock = 0, passes = 0\<rparr>)" by code_simp
  from emit_file_asset[of "''main.js?v=1''" demo_env "''/dist''" "\<lparr>clock = 0, passes = 0\<rparr>"
      demo_text_asset, THEN conjunct1]
  show ?thesis by (simp add: a b c d e f g Let_def)
qed

section \<open>Lemmas on the store and the hooks\<close>

lemma hget_append: "a < length h \<Longrightarrow> hget (h @ ext) a = hget h a"
  by (simp add: hget_def nth_append)

lemma hget_alloc_new: "hget (h @ [c]) (length h) = Some c"
  by (simp add: hget_def)

lemma hget_Some_less: "hget h a = Some c \<Longrightarrow> a < length h"
  by (simp add: hget_def split: if_splits)

lemma hget_hset: "hget (hset h a c) b = (if b = a \<and> a < length h then Some c else hget h b)"
  by (auto simp: hget_def hset_def)

lemma length_hset [simp]: "length (hset h a c) = length h"
  by (simp add: hset_def)

lemma alloc_hooks_props:
  "alloc_hooks ns h = (hs, h1) \<Longrightarrow>
     h1 = h @ replicate (length ns) (HTaps []) \<and>
     hs = zip ns [length h ..< length h + length ns]"
proof (induction ns arbitrary: h hs h1)
  case Nil
  then show ?case by simp
next
  case (Cons n ns)
  obtain hs2 h2 where r: "alloc_hooks ns (h @ [HTaps []]) = (hs2, h2)"
    by (cases "alloc_hooks ns (h @ [HTaps []])")
  have u: "[length h ..< length h + length (n # ns)] =
           length h # [length (h @ [HTaps []]) ..< length (h @ [HTaps []]) + length ns]"
    by (simp add: upt_conv_Cons del: upt_Suc)
  from Cons.prems r have e: "hs = (n, length h) # hs2" "h1 = h2"
    by (simp_all add: alloc_def)
  from Cons.IH[OF r] have i: "h2 = (h @ [HTaps []]) @ replicate (length ns) (HTaps [])"
    "hs2 = zip ns [length (h @ [HTaps []]) ..< length (h @ [HTaps []]) + length ns]"
    by simp_all
  show ?case unfolding e i u by (simp add: replicate_append_same del: upt_Suc)
qed

lemma new_Compiler_props:
  assumes "new_Compiler ctx h = (c, h1)"
  shows "hooks c = zip hook_names [length h ..< length h + length hook_names]"
    and "h1 = h @ replicate (length hook_names) (HTaps []) @ [HObj [], HMap [], HMap [], HObj []]"
  using assms
  by (auto simp: new_Compiler_def alloc_def split: prod.splits dest!: alloc_hooks_props)

lemma distinct_hook_names: "distinct hook_names"
  by (simp add: hook_names_def)

lemma length_hook_names: "length hook_names = 24"
  by (simp add: hook_names_def)

lemma new_Compiler_wf:
  assumes "new_Compiler ctx h = (c, h1)"
  shows "wf_hooks c h1" and "map fst (hooks c) = hook_names"
    and "\<forall>a \<in> hook_addrs c. length h \<le> a \<and> a < length h1"
    and "prefix h h1" and "taps_of c h1 n = []"
proof -
  note p = new_Compiler_props[OF assms]
  show m: "map fst (hooks c) = hook_names" by (simp add: p(1))
  have s: "map snd (hooks c) = [length h ..< length h + length hook_names]" by (simp add: p(1))
  show r: "\<forall>a \<in> hook_addrs c. length h \<le> a \<and> a < length h1"
    unfolding hook_addrs_def set_map[symmetric] s by (auto simp: p(2))
  have cells: "\<forall>a \<in> hook_addrs c. hget h1 a = Some (HTaps [])"
    unfolding hook_addrs_def set_map[symmetric] s
    by (auto simp: p(2) hget_def nth_append)
  show "wf_hooks c h1"
    unfolding wf_hooks_def using cells by (simp add: m s distinct_hook_names)
  show "prefix h h1" by (simp add: p(2))
  show "taps_of c h1 n = []"
  proof (cases "map_of (hooks c) n")
    case None
    then show ?thesis by (simp add: taps_of_def)
  next
    case (Some a)
    then have "a \<in> hook_addrs c" by (auto simp: hook_addrs_def dest: map_of_SomeD intro: rev_image_eqI)
    with cells Some show ?thesis by (simp add: taps_of_def)
  qed
qed


lemma wf_hooks_addr_name:
  assumes "wf_hooks c h" "map_of (hooks c) m = Some a" "map_of (hooks c) n = Some a"
  shows "m = n"
proof -
  from assms(1) have d: "distinct (map snd (hooks c))" by (simp add: wf_hooks_def)
  have "(m, a) \<in> set (hooks c)" "(n, a) \<in> set (hooks c)"
    using assms(2,3) by (auto dest: map_of_SomeD)
  with d show ?thesis
    by (metis distinct_map inj_onD prod.inject snd_conv)
qed

lemma map_of_hook_addr: "map_of (hooks c) n = Some a \<Longrightarrow> a \<in> hook_addrs c"
  by (auto simp: hook_addrs_def dest!: map_of_SomeD intro: rev_image_eqI)

lemma tap_hook_props:
  assumes t: "tap_hook c n t h = Some h'" and wf: "wf_hooks c h"
  shows "wf_hooks c h'" and "length h' = length h"
    and "taps_of c h' m = taps_of c h m @ (if m = n then [t] else [])"
    and "\<forall>a. a \<notin> hook_addrs c \<longrightarrow> hget h' a = hget h a"
proof -
  from t obtain a ts where a: "map_of (hooks c) n = Some a" and c: "hget h a = Some (HTaps ts)"
    and h': "h' = hset h a (HTaps (ts @ [t]))"
    by (auto simp: tap_hook_def split: option.splits cell.splits)
  have al: "a < length h" using c by (rule hget_Some_less)
  have ain: "a \<in> hook_addrs c" using a by (rule map_of_hook_addr)
  show "length h' = length h" by (simp add: h')
  show "\<forall>a. a \<notin> hook_addrs c \<longrightarrow> hget h' a = hget h a"
    using ain by (auto simp: h' hget_hset)
  show "wf_hooks c h'"
    using wf by (auto simp: wf_hooks_def h' hget_hset)
  show "taps_of c h' m = taps_of c h m @ (if m = n then [t] else [])"
  proof (cases "map_of (hooks c) m")
    case None
    with a show ?thesis by (auto simp: taps_of_def)
  next
    case (Some b)
    show ?thesis
    proof (cases "m = n")
      case True
      with a c al show ?thesis by (simp add: taps_of_def h' hget_hset)
    next
      case False
      with wf_hooks_addr_name[OF wf Some] a have "b \<noteq> a" by auto
      with Some False show ?thesis by (simp add: taps_of_def h' hget_hset)
    qed
  qed
qed

lemma apply_plugin_props:
  "apply_plugin c rs h = Some h' \<Longrightarrow> wf_hooks c h \<Longrightarrow>
     wf_hooks c h' \<and> length h' = length h \<and>
     taps_of c h' m = taps_of c h m @ map snd (filter (\<lambda>r. fst r = m) rs) \<and>
     (\<forall>a. a \<notin> hook_addrs c \<longrightarrow> hget h' a = hget h a)"
proof (induction rs arbitrary: h)
  case Nil
  then show ?case by simp
next
  case (Cons r rs)
  from Cons.prems(1) obtain h1 where t: "tap_hook c (fst r) (snd r) h = Some h1"
    and rest: "apply_plugin c rs h1 = Some h'"
    by (auto split: option.splits)
  note p = tap_hook_props[OF t Cons.prems(2)]
  from Cons.IH[OF rest p(1)] p(2) p(3)[of m] p(4) show ?case by auto
qed

lemma apply_plugins_props:
  "apply_plugins c ps h = Some h' \<Longrightarrow> wf_hooks c h \<Longrightarrow>
     wf_hooks c h' \<and> length h' = length h \<and>
     taps_of c h' m = taps_of c h m @ regs m ps \<and>
     (\<forall>a. a \<notin> hook_addrs c \<longrightarrow> hget h' a = hget h a)"
proof (induction ps arbitrary: h)
  case Nil
  then show ?case by (simp add: regs_def)
next
  case (Cons p ps)
  from Cons.prems(1) obtain h1 where t: "apply_plugin c p h = Some h1"
    and rest: "apply_plugins c ps h1 = Some h'"
    by (auto split: option.splits)
  note q = apply_plugin_props[OF t Cons.prems(2), of m]
  from Cons.IH[OF rest] q show ?case by (auto simp: regs_def)
qed


lemma hooks_set_fst [simp]: "map fst (hooks_set n a hs) = map fst hs"
  by (induction hs) (auto simp: hooks_set_def)

lemma hooks_set_absent: "n \<notin> set (map fst hs) \<Longrightarrow> hooks_set n a hs = hs"
  by (induction hs) (auto simp: hooks_set_def)

lemma map_of_hooks_set:
  "map_of (hooks_set n a hs) m = (if m = n \<and> map_of hs n \<noteq> None then Some a else map_of hs m)"
  by (induction hs) (auto simp: hooks_set_def)

lemma hooks_set_snd: "set (map snd (hooks_set n a hs)) \<subseteq> insert a (set (map snd hs))"
  by (induction hs) (auto simp: hooks_set_def)

lemma distinct_hooks_set:
  "distinct (map fst hs) \<Longrightarrow> distinct (map snd hs) \<Longrightarrow> a \<notin> set (map snd hs) \<Longrightarrow>
     distinct (map snd (hooks_set n a hs))"
proof (induction hs)
  case Nil
  then show ?case by (simp add: hooks_set_def)
next
  case (Cons kb hs)
  show ?case
  proof (cases "fst kb = n")
    case True
    with Cons.prems(1) have "n \<notin> set (map fst hs)" by auto
    then have "hooks_set n a hs = hs" by (rule hooks_set_absent)
    then have "hooks_set n a (kb # hs) = (n, a) # hs" using True by (simp add: hooks_set_def)
    with Cons.prems show ?thesis by auto
  next
    case False
    then have e: "hooks_set n a (kb # hs) = kb # hooks_set n a hs" by (simp add: hooks_set_def)
    from Cons.prems have "distinct (map snd (hooks_set n a hs))" by (intro Cons.IH) auto
    moreover have "snd kb \<notin> set (map snd (hooks_set n a hs))"
      using hooks_set_snd[of n a hs] Cons.prems by auto
    ultimately show ?thesis by (simp add: e)
  qed
qed

lemma taps_of_append:
  "\<forall>a \<in> hook_addrs c. a < length h \<Longrightarrow> taps_of c (h @ ext) m = taps_of c h m"
  by (auto simp: taps_of_def hget_append split: option.splits dest!: map_of_hook_addr)

lemma taps_of_prefix:
  "\<forall>a \<in> hook_addrs c. a < length h \<Longrightarrow> prefix h h' \<Longrightarrow> taps_of c h' m = taps_of c h m"
  by (auto simp: prefix_def taps_of_append)

lemma wf_hooks_valid: "wf_hooks c h \<Longrightarrow> \<forall>a \<in> hook_addrs c. a < length h"
  by (auto simp: wf_hooks_def dest: hget_Some_less)

lemma inherit_step:
  assumes wf: "wf_hooks ch h" and has: "map_of (hooks ch) n \<noteq> None"
  defines "ch1 \<equiv> ch\<lparr>hooks := hooks_set n (length h) (hooks ch)\<rparr>"
  shows "wf_hooks ch1 (h @ [HTaps ts])"
    and "taps_of ch1 (h @ [HTaps ts]) m = (if m = n then ts else taps_of ch h m)"
    and "\<forall>a \<in> hook_addrs ch1. a \<in> hook_addrs ch \<or> a = length h"
proof -
  note v = wf_hooks_valid[OF wf]
  have nin: "length h \<notin> set (map snd (hooks ch))"
    using v by (auto simp: hook_addrs_def)
  show sub: "\<forall>a \<in> hook_addrs ch1. a \<in> hook_addrs ch \<or> a = length h"
    using hooks_set_snd[of n "length h" "hooks ch"] by (auto simp: hook_addrs_def ch1_def)
  show "wf_hooks ch1 (h @ [HTaps ts])"
    unfolding wf_hooks_def
  proof (intro conjI ballI)
    show "distinct (map fst (hooks ch1))" using wf by (simp add: ch1_def wf_hooks_def)
    show "distinct (map snd (hooks ch1))"
      using wf nin by (simp add: ch1_def wf_hooks_def distinct_hooks_set)
    fix a assume "a \<in> hook_addrs ch1"
    with sub have "a \<in> hook_addrs ch \<or> a = length h" by blast
    then show "\<exists>ts'. hget (h @ [HTaps ts]) a = Some (HTaps ts')"
    proof
      assume a: "a \<in> hook_addrs ch"
      with v have "a < length h" by blast
      with wf a show ?thesis by (auto simp: wf_hooks_def hget_append)
    next
      assume "a = length h"
      then show ?thesis by (simp add: hget_alloc_new)
    qed
  qed
  show "taps_of ch1 (h @ [HTaps ts]) m = (if m = n then ts else taps_of ch h m)"
  proof (cases "m = n")
    case True
    with has show ?thesis
      by (auto simp: taps_of_def ch1_def map_of_hooks_set hget_alloc_new)
  next
    case False
    then have "map_of (hooks ch1) m = map_of (hooks ch) m"
      by (simp add: ch1_def map_of_hooks_set)
    with False v show ?thesis
      by (auto simp: taps_of_def hget_append split: option.splits dest!: map_of_hook_addr)
  qed
qed

lemma inherit_taps_props:
  assumes "inherit_taps p ns ch h = Some (ch', h')" and "wf_hooks ch h"
      and "\<forall>a \<in> hook_addrs p. a < length h"
  shows "wf_hooks ch' h' \<and> prefix h h' \<and> map fst (hooks ch') = map fst (hooks ch) \<and>
         ch' = ch\<lparr>hooks := hooks ch'\<rparr> \<and>
         (\<forall>a \<in> hook_addrs ch'. a \<in> hook_addrs ch \<or> length h \<le> a) \<and>
         (\<forall>m. taps_of ch' h' m =
            (if m \<in> set ns \<and> m \<notin> set excluded_hooks \<and> map_of (hooks ch) m \<noteq> None
             then taps_of p h m else taps_of ch h m))"
  using assms
proof (induction ns arbitrary: ch h)
  case Nil
  then show ?case by simp
next
  case (Cons n ns)
  show ?case
  proof (cases "n \<notin> set excluded_hooks \<and> map_of (hooks ch) n \<noteq> None")
    case False
    with Cons.prems(1) have r: "inherit_taps p ns ch h = Some (ch', h')" by auto
    from Cons.IH[OF r Cons.prems(2,3)] False show ?thesis by auto
  next
    case True
    with Cons.prems(1) obtain a ts where a: "map_of (hooks p) n = Some a"
      and c: "hget h a = Some (HTaps ts)"
      and r: "inherit_taps p ns (ch\<lparr>hooks := hooks_set n (length h) (hooks ch)\<rparr>)
                (h @ [HTaps ts]) = Some (ch', h')"
      by (auto simp: alloc_def split: option.splits cell.splits)
    define ch1 where "ch1 = ch\<lparr>hooks := hooks_set n (length h) (hooks ch)\<rparr>"
    from True have has: "map_of (hooks ch) n \<noteq> None" by simp
    note st = inherit_step(1)[OF Cons.prems(2) has, where ts = ts, folded ch1_def]
      inherit_step(2)[OF Cons.prems(2) has, where ts = ts, folded ch1_def]
      inherit_step(3)[OF Cons.prems(2) has, folded ch1_def]
    have pv: "\<forall>a \<in> hook_addrs p. a < length (h @ [HTaps ts])" using Cons.prems(3) by auto
    note ih = Cons.IH[OF r[folded ch1_def] st(1) pv]
    have pt: "taps_of p h n = ts" using a c by (simp add: taps_of_def)
    have pa: "\<And>m. taps_of p (h @ [HTaps ts]) m = taps_of p h m"
      using Cons.prems(3) by (rule taps_of_append)
    have mo: "\<And>m. map_of (hooks ch1) m = None \<longleftrightarrow> map_of (hooks ch) m = None"
      by (auto simp: ch1_def map_of_hooks_set)
    have "wf_hooks ch' h'" using ih by simp
    moreover have "prefix h h'" using ih by (auto intro: append_prefixD)
    moreover have "map fst (hooks ch') = map fst (hooks ch)" using ih by (simp add: ch1_def)
    moreover have "ch' = ch\<lparr>hooks := hooks ch'\<rparr>"
    proof -
      from ih have "ch' = ch1\<lparr>hooks := hooks ch'\<rparr>" by simp
      then show ?thesis by (simp add: ch1_def)
    qed
    moreover have "\<forall>a \<in> hook_addrs ch'. a \<in> hook_addrs ch \<or> length h \<le> a"
      using ih st(3) by fastforce
    moreover have "\<forall>m. taps_of ch' h' m =
            (if m \<in> set (n # ns) \<and> m \<notin> set excluded_hooks \<and> map_of (hooks ch) m \<noteq> None
             then taps_of p h m else taps_of ch h m)"
    proof
      fix m
      from ih have "taps_of ch' h' m =
            (if m \<in> set ns \<and> m \<notin> set excluded_hooks \<and> map_of (hooks ch1) m \<noteq> None
             then taps_of p (h @ [HTaps ts]) m else taps_of ch1 (h @ [HTaps ts]) m)" by blast
      then show "taps_of ch' h' m =
            (if m \<in> set (n # ns) \<and> m \<notin> set excluded_hooks \<and> map_of (hooks ch) m \<noteq> None
             then taps_of p h m else taps_of ch h m)"
        using True mo[of m] by (auto simp: pa st(2) pt)
    qed
    ultimately show ?thesis by blast
  qed
qed


lemma createChildCompiler_steps:
  assumes "createChildCompiler env p cmp nm i oo plugins h = Inr (ch, h')"
  obtains ch0 h1 h2 ch1 h3 rv h4 where
    "new_Compiler (compiler_context p) h = (ch0, h1)"
    "(case plugins of None \<Rightarrow> Some h1 | Some ps \<Rightarrow> apply_plugins ch0 ps h1) = Some h2"
    "inherit_taps p (map fst (hooks p)) ch0 h2 = Some (ch1, h3)"
    "child_records env p nm i h3 = Inr (rv, h4)"
    "apply_plugins ch (hooks_childCompiler cmp) h4 = Some h'"
    "hooks ch = hooks ch1" "records ch = rv"
proof -
  obtain ch0 h1 where a: "new_Compiler (compiler_context p) h = (ch0, h1)"
    by (cases "new_Compiler (compiler_context p) h")
  from assms a obtain h2 where
    b: "(case plugins of None \<Rightarrow> Some h1 | Some ps \<Rightarrow> apply_plugins ch0 ps h1) = Some h2"
    unfolding createChildCompiler_def
    by (cases "case plugins of None \<Rightarrow> Some h1 | Some ps \<Rightarrow> apply_plugins ch0 ps h1") auto
  from assms a b obtain ch1 h3 where
    c: "inherit_taps p (map fst (hooks p)) ch0 h2 = Some (ch1, h3)"
    unfolding createChildCompiler_def
    by (cases "inherit_taps p (map fst (hooks p)) ch0 h2") auto
  from assms a b c obtain rv h4 where
    d: "child_records env p nm i h3 = Inr (rv, h4)"
    unfolding createChildCompiler_def
    by (cases "child_records env p nm i h3") (auto simp: Let_def)
  from assms a b c d have
    e: "apply_plugins ch (hooks_childCompiler cmp) h4 = Some h'"
       "hooks ch = hooks ch1" "records ch = rv"
    unfolding createChildCompiler_def
    by (auto simp: Let_def split: option.splits)
  from a b c d e show ?thesis by (rule that)
qed

lemma wf_hooks_cong: "hooks c' = hooks c \<Longrightarrow> wf_hooks c' h = wf_hooks c h"
  by (simp add: wf_hooks_def hook_addrs_def)

lemma taps_of_cong: "hooks c' = hooks c \<Longrightarrow> taps_of c' h m = taps_of c h m"
  by (simp add: taps_of_def)

lemma hook_addrs_cong: "hooks c' = hooks c \<Longrightarrow> hook_addrs c' = hook_addrs c"
  by (simp add: hook_addrs_def)

lemma records_entry_frame:
  assumes "records_entry l xs i h = (rv, h')"
  shows "length h \<le> length h' \<and> (\<forall>a. a < length h \<and> a \<noteq> l \<longrightarrow> hget h' a = hget h a)"
  using assms
  by (auto simp: records_entry_def alloc_def hget_hset hget_append split: if_splits)

lemma child_records_frame:
  assumes "child_records env p nm i h = Inr (rv, h')"
  shows "length h \<le> length h' \<and>
         (\<forall>a ts. hget h a = Some (HTaps ts) \<longrightarrow> hget h' a = Some (HTaps ts))"
proof -
  define rel where "rel = makePathsRelative env (compiler_context p) nm"
  from assms obtain r kvs where r: "records p = JRef r" and k: "hget h r = Some (HObj kvs)"
    by (auto simp: child_records_def Let_def split: jsval.splits option.splits cell.splits)
  have rl: "r < length h" using k by (rule hget_Some_less)
  show ?thesis
  proof (cases "case map_of kvs rel of None \<Rightarrow> True | Some v \<Rightarrow> \<not> truthy v")
    case True
    with assms r k have e: "records_entry (length h) [] i
        (hset (h @ [HArr []]) r (HObj (obj_set rel (JRef (length h)) kvs))) = (rv, h')"
      by (auto simp: child_records_def Let_def rel_def[symmetric] alloc_def
               split: option.splits if_splits)
    note f = records_entry_frame[OF e]
    from f have "length h \<le> length h'" by simp
    moreover have "\<forall>a ts. hget h a = Some (HTaps ts) \<longrightarrow> hget h' a = Some (HTaps ts)"
    proof (intro allI impI)
      fix a ts assume c: "hget h a = Some (HTaps ts)"
      then have al: "a < length h" by (rule hget_Some_less)
      from c k have "a \<noteq> r" by auto
      with al f have "hget h' a =
          hget (hset (h @ [HArr []]) r (HObj (obj_set rel (JRef (length h)) kvs))) a" by simp
      also have "\<dots> = hget h a" using \<open>a \<noteq> r\<close> al by (simp add: hget_hset hget_append)
      finally show "hget h' a = Some (HTaps ts)" using c by simp
    qed
    ultimately show ?thesis by blast
  next
    case False
    with assms r k obtain l xs where v: "map_of kvs rel = Some (JRef l)"
      and x: "hget h l = Some (HArr xs)" and e: "records_entry l xs i h = (rv, h')"
      by (auto simp: child_records_def Let_def rel_def[symmetric]
               split: option.splits if_splits jsval.splits cell.splits)
    note f = records_entry_frame[OF e]
    from f have "length h \<le> length h'" by simp
    moreover have "\<forall>a ts. hget h a = Some (HTaps ts) \<longrightarrow> hget h' a = Some (HTaps ts)"
    proof (intro allI impI)
      fix a ts assume c: "hget h a = Some (HTaps ts)"
      then have al: "a < length h" by (rule hget_Some_less)
      from c x have "a \<noteq> l" by auto
      with al f c show "hget h' a = Some (HTaps ts)" by simp
    qed
    ultimately show ?thesis by blast
  qed
qed

lemma wf_hooks_taps_kept:
  assumes "wf_hooks c h"
      and "\<forall>a ts. hget h a = Some (HTaps ts) \<longrightarrow> hget h' a = Some (HTaps ts)"
  shows "wf_hooks c h'" and "taps_of c h' m = taps_of c h m"
proof -
  show "wf_hooks c h'" using assms by (auto simp: wf_hooks_def)
  show "taps_of c h' m = taps_of c h m"
  proof (cases "map_of (hooks c) m")
    case None
    then show ?thesis by (simp add: taps_of_def)
  next
    case (Some a)
    then have "a \<in> hook_addrs c" by (rule map_of_hook_addr)
    with assms(1) obtain ts where "hget h a = Some (HTaps ts)" by (auto simp: wf_hooks_def)
    with assms(2) Some show ?thesis by (simp add: taps_of_def)
  qed
qed

lemma child_taps:
  assumes cc: "createChildCompiler env p cmp nm i oo plugins h = Inr (ch, h')"
      and pv: "\<forall>a \<in> hook_addrs p. a < length h"
  shows "wf_hooks ch h'"
    and "\<forall>a \<in> hook_addrs ch. length h \<le> a"
    and "taps_of ch h' m =
           (if m \<notin> set excluded_hooks \<and> m \<in> set hook_names \<and> map_of (hooks p) m \<noteq> None
            then taps_of p h m
            else if m \<in> set hook_names
                 then regs m (case plugins of None \<Rightarrow> [] | Some ps \<Rightarrow> ps) else [])
           @ (if m \<in> set hook_names then regs m (hooks_childCompiler cmp) else [])"
proof -
  from cc obtain ch0 h1 h2 ch1 h3 rv h4 where
    a: "new_Compiler (compiler_context p) h = (ch0, h1)" and
    b: "(case plugins of None \<Rightarrow> Some h1 | Some ps \<Rightarrow> apply_plugins ch0 ps h1) = Some h2" and
    c: "inherit_taps p (map fst (hooks p)) ch0 h2 = Some (ch1, h3)" and
    d: "child_records env p nm i h3 = Inr (rv, h4)" and
    e: "apply_plugins ch (hooks_childCompiler cmp) h4 = Some h'" and
    hk: "hooks ch = hooks ch1"
    by (rule createChildCompiler_steps)
  note n = new_Compiler_wf[OF a]
  have names0: "\<And>m. map_of (hooks ch0) m \<noteq> None \<longleftrightarrow> m \<in> set hook_names"
    using n(2) by (metis map_of_eq_None_iff set_map)
  have b': "wf_hooks ch0 h2 \<and> length h2 = length h1 \<and>
            taps_of ch0 h2 m = regs m (case plugins of None \<Rightarrow> [] | Some ps \<Rightarrow> ps) \<and>
            (\<forall>a. a \<notin> hook_addrs ch0 \<longrightarrow> hget h2 a = hget h1 a)"
  proof (cases plugins)
    case None
    with b n(1) n(5)[of m] show ?thesis by (simp add: regs_def)
  next
    case (Some ps)
    with b have "apply_plugins ch0 ps h1 = Some h2" by simp
    from apply_plugins_props[OF this n(1), of m] n(5)[of m] Some show ?thesis by simp
  qed
  have below: "\<forall>a. a < length h \<longrightarrow> hget h2 a = hget h a"
  proof (intro allI impI)
    fix a assume al: "a < length h"
    with n(3) have "a \<notin> hook_addrs ch0" by auto
    with b' have "hget h2 a = hget h1 a" by simp
    also have "\<dots> = hget h a" using n(4) al by (rule hget_prefix)
    finally show "hget h2 a = hget h a" .
  qed
  have len: "length h \<le> length h2"
    using n(4) b' by (auto dest: prefix_length_le)
  have pv2: "\<forall>a \<in> hook_addrs p. a < length h2"
    using pv len by fastforce
  have pt2: "taps_of p h2 m = taps_of p h m"
    using pv below by (auto simp: taps_of_def split: option.splits dest!: map_of_hook_addr)
  from b' have wf2: "wf_hooks ch0 h2" by simp
  note ih = inherit_taps_props[OF c wf2 pv2]
  have wf3: "wf_hooks ch1 h3" using ih by simp
  have addr3: "\<forall>a \<in> hook_addrs ch1. length h \<le> a"
  proof
    fix a assume "a \<in> hook_addrs ch1"
    with ih have "a \<in> hook_addrs ch0 \<or> length h2 \<le> a" by blast
    with n(3) len show "length h \<le> a" by auto
  qed
  have t3: "taps_of ch1 h3 m =
      (if m \<notin> set excluded_hooks \<and> m \<in> set hook_names \<and> map_of (hooks p) m \<noteq> None
       then taps_of p h m
       else if m \<in> set hook_names
            then regs m (case plugins of None \<Rightarrow> [] | Some ps \<Rightarrow> ps) else [])"
  proof -
    from ih have "taps_of ch1 h3 m =
        (if m \<in> set (map fst (hooks p)) \<and> m \<notin> set excluded_hooks \<and> map_of (hooks ch0) m \<noteq> None
         then taps_of p h2 m else taps_of ch0 h2 m)" by blast
    moreover have "m \<in> set (map fst (hooks p)) \<longleftrightarrow> map_of (hooks p) m \<noteq> None"
      by (metis map_of_eq_None_iff set_map)
    moreover have "m \<notin> set hook_names \<Longrightarrow> taps_of ch0 h2 m = []"
      using names0[of m] by (simp add: taps_of_def)
    ultimately show ?thesis using names0[of m] pt2 b' by auto
  qed
  note f = child_records_frame[OF d]
  note k4 = wf_hooks_taps_kept[OF wf3 f[THEN conjunct2]]
  have wf4: "wf_hooks ch h4" using k4(1) wf_hooks_cong[OF hk] by simp
  have t4: "taps_of ch h4 m = taps_of ch1 h3 m" using k4(2)[of m] taps_of_cong[OF hk] by simp
  note q = apply_plugins_props[OF e wf4, of m]
  show "wf_hooks ch h'" using q by simp
  show "\<forall>a \<in> hook_addrs ch. length h \<le> a" using addr3 hook_addrs_cong[OF hk] by simp
  have names: "m \<notin> set hook_names \<Longrightarrow> taps_of ch h' m = []"
  proof -
    assume "m \<notin> set hook_names"
    moreover have "map fst (hooks ch) = hook_names" using ih n(2) hk by simp
    ultimately have "map_of (hooks ch) m = None" by (metis map_of_eq_None_iff set_map)
    then show ?thesis by (simp add: taps_of_def)
  qed
  show "taps_of ch h' m =
           (if m \<notin> set excluded_hooks \<and> m \<in> set hook_names \<and> map_of (hooks p) m \<noteq> None
            then taps_of p h m
            else if m \<in> set hook_names
                 then regs m (case plugins of None \<Rightarrow> [] | Some ps \<Rightarrow> ps) else [])
           @ (if m \<in> set hook_names then regs m (hooks_childCompiler cmp) else [])"
  proof (cases "m \<in> set hook_names")
    case True
    with q t4 t3 show ?thesis by simp
  next
    case False
    with names show ?thesis by simp
  qed
qed


lemma excluded_are_hooks: "set excluded_hooks \<subseteq> set hook_names"
  by (simp add: excluded_hooks_def hook_names_def)

lemma hooks_valid_iff: "hooks_valid c h \<longleftrightarrow> (\<forall>a \<in> hook_addrs c. a < length h)"
  by (auto simp: hooks_valid_def hook_addrs_def list_all_iff)



section \<open>The records of a child compiler\<close>











section \<open>The taps of a child compiler\<close>

text \<open>
  C10, as the claim states it, fails on the code. A child is spawned with one plugin,
  which taps \<open>make\<close>; \<open>make\<close> is one of the seven excluded hooks, and on the child that is
  returned it has that tap: it does not start with no taps at all.
\<close>

theorem child_taps_counterexample:
  "demo_child_make = Inr (demo_child, demo_child_heap) \<and>
   ''make'' \<in> set excluded_hooks \<and>
   taps_of demo_child demo_child_heap ''make'' = [''SingleEntryPlugin'']"
  by code_simp

text \<open>
  C10, amended. For a parent whose hooks exist in the store: every \<open>taps\<close> array of the
  child is an array of its own, so a tap registered on any hook of the parent after the
  child was created appears on no hook of the child; an inherited hook (one the
  constructor makes, that is not excluded and that the parent has) holds on the child
  the parent's taps of the moment of the call, in a copy, followed by what the taps of
  the session's \<open>childCompiler\<close> hook register; and each of the seven excluded hooks
  holds no tap of the parent: exactly the taps registered by the plugins passed to
  \<open>createChildCompiler\<close> and then by the taps of the \<open>childCompiler\<close> hook.
\<close>

theorem child_taps_copied:
  assumes cc: "createChildCompiler env p cmp nm i oo plugins h = Inr (ch, h')"
      and hv: "hooks_valid p h"
  shows "(\<forall>m n t h''. tap_hook p m t h' = Some h'' \<longrightarrow> taps_of ch h'' n = taps_of ch h' n) \<and>
         (\<forall>n. n \<in> set hook_names \<and> n \<notin> set excluded_hooks \<and> map_of (hooks p) n \<noteq> None \<longrightarrow>
              taps_of ch h' n = taps_of p h n @ regs n (hooks_childCompiler cmp)) \<and>
         (\<forall>n. n \<in> set excluded_hooks \<longrightarrow>
              taps_of ch h' n =
                regs n (case plugins of None \<Rightarrow> [] | Some ps \<Rightarrow> ps) @
                regs n (hooks_childCompiler cmp))"
proof (intro conjI allI impI)
  from hv have pv: "\<forall>a \<in> hook_addrs p. a < length h" by (simp add: hooks_valid_iff)
  note ct = child_taps[OF cc pv]
  fix m n t h'' assume t: "tap_hook p m t h' = Some h''"
  then obtain a ts where a: "map_of (hooks p) m = Some a"
    and h'': "h'' = hset h' a (HTaps (ts @ [t]))"
    by (auto simp: tap_hook_def split: option.splits cell.splits)
  from a have "a \<in> hook_addrs p" by (rule map_of_hook_addr)
  with pv have al: "a < length h" by blast
  show "taps_of ch h'' n = taps_of ch h' n"
  proof (cases "map_of (hooks ch) n")
    case None
    then show ?thesis by (simp add: taps_of_def)
  next
    case (Some b)
    then have "b \<in> hook_addrs ch" by (rule map_of_hook_addr)
    with ct(2) al have "b \<noteq> a" by auto
    with Some show ?thesis by (simp add: taps_of_def h'' hget_hset)
  qed
next
  from hv have pv: "\<forall>a \<in> hook_addrs p. a < length h" by (simp add: hooks_valid_iff)
  fix n assume "n \<in> set hook_names \<and> n \<notin> set excluded_hooks \<and> map_of (hooks p) n \<noteq> None"
  with child_taps(3)[OF cc pv, of n]
  show "taps_of ch h' n = taps_of p h n @ regs n (hooks_childCompiler cmp)" by simp
next
  from hv have pv: "\<forall>a \<in> hook_addrs p. a < length h" by (simp add: hooks_valid_iff)
  fix n assume "n \<in> set excluded_hooks"
  with excluded_are_hooks child_taps(3)[OF cc pv, of n]
  show "taps_of ch h' n =
          regs n (case plugins of None \<Rightarrow> [] | Some ps \<Rightarrow> ps) @ regs n (hooks_childCompiler cmp)"
    by auto
qed

theorem child_taps_copied_witness:
  "hooks_valid demo_compiler demo_parent_heap \<and>
   createChildCompiler demo_env demo_compiler demo_session ''html'' 0 []
       (Some [[(''make'', ''SingleEntryPlugin'')]]) demo_parent_heap =
     Inr (demo_child2, demo_child2_heap) \<and>
   tap_hook demo_compiler ''afterCompile'' ''Late'' demo_child2_heap = Some demo_later_heap \<and>
   taps_of demo_compiler demo_later_heap ''afterCompile'' = [''Logger'', ''Late''] \<and>
   taps_of demo_child2 demo_later_heap ''afterCompile'' = [''Logger''] \<and>
   taps_of demo_child2 demo_child2_heap ''afterCompile'' = [''Logger''] \<and>
   taps_of demo_compiler demo_parent_heap ''emit'' = [''CopyPlugin''] \<and>
   taps_of demo_child2 demo_child2_heap ''emit'' = [] \<and>
   taps_of demo_child2 demo_child2_heap ''make'' = [''SingleEntryPlugin'']"
proof -
  have cc: "createChildCompiler demo_env demo_compiler demo_session ''html'' 0 []
       (Some [[(''make'', ''SingleEntryPlugin'')]]) demo_parent_heap =
     Inr (demo_child2, demo_child2_heap)" by code_simp
  have pv: "hooks_valid demo_compiler demo_parent_heap" by code_simp
  have t: "tap_hook demo_compiler ''afterCompile'' ''Late'' demo_child2_heap = Some demo_later_heap"
    by code_simp
  have p1: "taps_of demo_compiler demo_later_heap ''afterCompile'' = [''Logger'', ''Late'']"
    by code_simp
  have p2: "taps_of demo_compiler demo_parent_heap ''afterCompile'' = [''Logger'']" by code_simp
  have p3: "taps_of demo_compiler demo_parent_heap ''emit'' = [''CopyPlugin'']" by code_simp
  have n1: "''afterCompile'' \<in> set hook_names \<and> ''afterCompile'' \<notin> set excluded_hooks \<and>
            map_of (hooks demo_compiler) ''afterCompile'' \<noteq> None" by code_simp
  have n2: "''emit'' \<in> set excluded_hooks" "''make'' \<in> set excluded_hooks" by code_simp+
  have r1: "regs ''afterCompile'' (hooks_childCompiler demo_session) = []" by code_simp
  have r2: "regs ''emit'' (hooks_childCompiler demo_session) = []"
    "regs ''emit'' [[(''make'', ''SingleEntryPlugin'')]] = []" by code_simp+
  have r3: "regs ''make'' (hooks_childCompiler demo_session) = []"
    "regs ''make'' [[(''make'', ''SingleEntryPlugin'')]] = [''SingleEntryPlugin'']" by code_simp+
  note th = child_taps_copied[OF cc pv]
  from th t have a: "taps_of demo_child2 demo_later_heap ''afterCompile'' =
      taps_of demo_child2 demo_child2_heap ''afterCompile''" by blast
  from th n1 have b: "taps_of demo_child2 demo_child2_heap ''afterCompile'' =
      taps_of demo_compiler demo_parent_heap ''afterCompile'' @
      regs ''afterCompile'' (hooks_childCompiler demo_session)" by blast
  from th n2(1) have c: "taps_of demo_child2 demo_child2_heap ''emit'' =
      regs ''emit'' [[(''make'', ''SingleEntryPlugin'')]] @
      regs ''emit'' (hooks_childCompiler demo_session)" by fastforce
  from th n2(2) have d: "taps_of demo_child2 demo_child2_heap ''make'' =
      regs ''make'' [[(''make'', ''SingleEntryPlugin'')]] @
      regs ''make'' (hooks_childCompiler demo_session)" by fastforce
  from pv cc t p1 p3 a b c d show ?thesis by (simp add: p2 r1 r2 r3)
qed

end
